theory Spec2Isabelle
  imports Main "HOL-Library.Word"
begin

section \<open>Lua C functions: values, stack and outcomes\<close>

text \<open>
  The bridge's primitives are Lua C functions. A C function works on the stack of the
  calling coroutine and ends in one of three ways: it returns its topmost \<open>n\<close> stack
  slots, it raises an error (\<open>luaL_error\<close>, \<open>luaL_argcheck\<close>), or it suspends the
  coroutine with \<open>lua_yieldk\<close>, naming the continuation function that runs on resumption.
\<close>

record lsocket_obj =
  socket :: "nat option"  \<comment> \<open>\<open>pal_socket_obj *socket\<close>; \<open>None\<close> is \<open>NULL\<close>\<close>

datatype lua_value =
    LNil
  | LBoolean bool
  | LInteger int
  | LString string
  | LLightUserdata "nat option"
  | LSocket lsocket_obj  \<comment> \<open>a full userdata with metatable \<open>Socket*\<close>\<close>

type_synonym lua_stack = "lua_value list"  \<comment> \<open>bottom first; index \<open>-1\<close> is the last element\<close>

type_synonym lua_KContext = int

datatype lua_KFunction =
    K_NULL  \<comment> \<open>no continuation function: \<open>lua_yield\<close>\<close>
  | K_finshaccept | K_finshconnect | K_finshsend | K_finshrecv | K_finshresolve

datatype lua_error =
    Error string  \<comment> \<open>\<open>luaL_error(L, msg)\<close>\<close>
  | ArgError nat string  \<comment> \<open>\<open>luaL_argcheck(L, cond, arg, msg)\<close> with \<open>cond\<close> false\<close>
  | ApiMisuse  \<comment> \<open>a stack index beyond the stack: undefined in the Lua C API\<close>

datatype outcome =
    Return "lua_value list"
  | Yield lua_stack lua_KContext lua_KFunction
      \<comment> \<open>\<open>lua_yieldk(L, 0, ctx, k)\<close>: the coroutine keeps its stack and suspends\<close>
  | Raise lua_error

text \<open>The value at the negative index \<open>-k\<close> (\<open>k \<ge> 1\<close>) of a stack.\<close>

definition lua_index :: "lua_stack \<Rightarrow> nat \<Rightarrow> lua_value option" where
  "lua_index st k = (if 1 \<le> k \<and> k \<le> length st then Some (st ! (length st - k)) else None)"

text \<open>\<open>lua_tointeger\<close>: the integer in the slot, and 0 for a value that is no number.\<close>

fun lua_tointeger :: "lua_value \<Rightarrow> int" where
  "lua_tointeger (LInteger n) = n"
| "lua_tointeger _ = 0"

text \<open>\<open>lua_isstring\<close>: true for a string and for a number (which converts to one).\<close>

fun lua_isstring :: "lua_value \<Rightarrow> bool" where
  "lua_isstring (LString _) = True"
| "lua_isstring (LInteger _) = True"
| "lua_isstring _ = False"

text \<open>\<open>return n\<close> from a C function: the topmost \<open>n\<close> slots are the results.\<close>

definition lua_return :: "lua_stack \<Rightarrow> nat \<Rightarrow> outcome" where
  "lua_return st n = (if n \<le> length st then Return (drop (length st - n) st) else Raise ApiMisuse)"

text \<open>\<open>lua_pop(L, n)\<close>.\<close>

definition lua_pop :: "lua_stack \<Rightarrow> nat \<Rightarrow> lua_stack" where
  "lua_pop st n = take (length st - n) st"

definition LUA_YIELD :: int where
  "LUA_YIELD = 1"

section \<open>Asynchronous socket primitives\<close>

text \<open>
  Modelled from the spec: the header \<open>pal/net/socket.h\<close> is not among the sources, so
  the two enumerators of \<open>pal_socket_err\<close> that the socket library names are given the
  values 0 and 2; every other integer is some other error. The functions below only
  compare an error with these two enumerators.
\<close>

type_synonym pal_socket_err = int

definition PAL_SOCKET_ERR_OK :: pal_socket_err where
  "PAL_SOCKET_ERR_OK = 0"

definition PAL_SOCKET_ERR_IN_PROGRESS :: pal_socket_err where
  "PAL_SOCKET_ERR_IN_PROGRESS = 2"

text \<open>
  The platform layer under the socket library. Its functions are not among the sources:
  each is a parameter that gives the result of the call. The library passes every call its
  callback and the calling coroutine; the model leaves both out.
\<close>

record pal_socket_api =
  pal_socket_enable_broadcast :: "nat \<Rightarrow> pal_socket_err"
  pal_socket_bind :: "nat \<Rightarrow> string \<Rightarrow> int \<Rightarrow> pal_socket_err"
  pal_socket_listen :: "nat \<Rightarrow> int \<Rightarrow> pal_socket_err"
  pal_socket_accept :: "nat \<Rightarrow> pal_socket_err \<times> nat option \<times> string \<times> int"
  pal_socket_connect :: "nat \<Rightarrow> string \<Rightarrow> int \<Rightarrow> pal_socket_err"
  pal_socket_send :: "nat \<Rightarrow> string \<Rightarrow> bool \<Rightarrow> pal_socket_err \<times> nat"
  pal_socket_sendto :: "nat \<Rightarrow> string \<Rightarrow> string \<Rightarrow> int \<Rightarrow> bool \<Rightarrow> pal_socket_err \<times> nat"
  pal_socket_recv :: "nat \<Rightarrow> int \<Rightarrow> pal_socket_err"
  pal_socket_readable :: "nat \<Rightarrow> bool"
  pal_socket_get_error_str :: "pal_socket_err \<Rightarrow> string"

text \<open>The calls made on the platform layer, in order: what a method does to the resource.\<close>

datatype pal_call =
    Call_set_timeout nat int
  | Call_enable_broadcast nat
  | Call_bind nat string int
  | Call_listen nat int
  | Call_accept nat
  | Call_connect nat string int
  | Call_send nat string bool
  | Call_sendto nat string string int
  | Call_recv nat int
  | Call_readable nat
  | Call_destroy nat

text \<open>The result of a method: how it ends, the socket object after it, the platform calls.\<close>

type_synonym lsocket_result = "outcome \<times> lsocket_obj \<times> pal_call list"

text \<open>\<open>lsocket_obj_get\<close>: the object, or the error for a destroyed socket.\<close>

definition lsocket_obj_get :: "lsocket_obj \<Rightarrow> lua_error + nat" where
  "lsocket_obj_get obj =
     (case socket obj of
        None \<Rightarrow> Inl (Error ''attemp to use a destroyed socket'')
      | Some s \<Rightarrow> Inr s)"

text \<open>\<open>lua_insert(L, -k)\<close>: the top element moves to index \<open>-k\<close>, the ones above shift up.\<close>

definition lua_insert :: "lua_stack \<Rightarrow> nat \<Rightarrow> lua_stack" where
  "lua_insert st k =
     take (length st - k) st @ [last st] @ butlast (drop (length st - k) st)"

definition finshaccept :: "pal_socket_api \<Rightarrow> lua_stack \<Rightarrow> int \<Rightarrow> lua_KContext \<Rightarrow> outcome" where
  "finshaccept pal st status extra =
     (case (lua_index st 4, lua_index st 3) of
        (Some v4, Some v3) \<Rightarrow>
          (let err = lua_tointeger v4;
               new_o = (case v3 of LLightUserdata p \<Rightarrow> p | _ \<Rightarrow> None)
           in if err = PAL_SOCKET_ERR_OK
              then lua_return (lua_insert (st @ [LSocket \<lparr>socket = new_o\<rparr>]) 3) 3
              else Raise (Error (pal_socket_get_error_str pal err)))
      | _ \<Rightarrow> Raise ApiMisuse)"

text \<open>
  The methods of a socket object. \<open>udata\<close> is the address of the userdata (the methods
  that suspend pass it on as the continuation's context), \<open>obj\<close> its contents. The
  arguments are the values that \<open>luaL_checkstring\<close>, \<open>luaL_checkinteger\<close> and
  \<open>luaL_checklstring\<close> extract; every method calls \<open>lsocket_obj_get\<close> before it looks at
  any of them.
\<close>

definition lsocket_obj_settimeout :: "lsocket_obj \<Rightarrow> int \<Rightarrow> lsocket_result" where
  "lsocket_obj_settimeout obj ms =
     (case lsocket_obj_get obj of
        Inl e \<Rightarrow> (Raise e, obj, [])
      | Inr s \<Rightarrow>
          (if \<not> (ms \<ge> 0 \<and> ms \<le> 4294967295) then (Raise (ArgError 2 ''ms out of range''), obj, [])
           else (Return [], obj, [Call_set_timeout s ms])))"

definition lsocket_obj_enablebroadcast :: "pal_socket_api \<Rightarrow> lsocket_obj \<Rightarrow> lsocket_result" where
  "lsocket_obj_enablebroadcast pal obj =
     (case lsocket_obj_get obj of
        Inl e \<Rightarrow> (Raise e, obj, [])
      | Inr s \<Rightarrow>
          (let err = pal_socket_enable_broadcast pal s
           in (if err \<noteq> PAL_SOCKET_ERR_OK then Raise (Error (pal_socket_get_error_str pal err))
               else Return [],
               obj, [Call_enable_broadcast s])))"

definition lsocket_obj_bind :: "pal_socket_api \<Rightarrow> lsocket_obj \<Rightarrow> string \<Rightarrow> int \<Rightarrow> lsocket_result" where
  "lsocket_obj_bind pal obj addr port =
     (case lsocket_obj_get obj of
        Inl e \<Rightarrow> (Raise e, obj, [])
      | Inr s \<Rightarrow>
          (if \<not> (port \<ge> 0 \<and> port \<le> 65535) then (Raise (ArgError 3 ''port out of range''), obj, [])
           else (let err = pal_socket_bind pal s addr port
                 in (if err \<noteq> PAL_SOCKET_ERR_OK then Raise (Error (pal_socket_get_error_str pal err))
                     else Return [],
                     obj, [Call_bind s addr port]))))"

definition lsocket_obj_listen :: "pal_socket_api \<Rightarrow> lsocket_obj \<Rightarrow> int \<Rightarrow> lsocket_result" where
  "lsocket_obj_listen pal obj backlog =
     (case lsocket_obj_get obj of
        Inl e \<Rightarrow> (Raise e, obj, [])
      | Inr s \<Rightarrow>
          (let err = pal_socket_listen pal s backlog
           in (if err \<noteq> PAL_SOCKET_ERR_OK then Raise (Error (pal_socket_get_error_str pal err))
               else Return [],
               obj, [Call_listen s backlog])))"

definition lsocket_obj_accept :: "pal_socket_api \<Rightarrow> int \<Rightarrow> lsocket_obj \<Rightarrow> lsocket_result" where
  "lsocket_obj_accept pal udata obj =
     (case lsocket_obj_get obj of
        Inl e \<Rightarrow> (Raise e, obj, [])
      | Inr s \<Rightarrow>
          (case pal_socket_accept pal s of (err, new_o, addr, port) \<Rightarrow>
             (if err = PAL_SOCKET_ERR_OK
              then lua_return [LSocket obj, LSocket \<lparr>socket = new_o\<rparr>, LString addr, LInteger port] 3
              else if err = PAL_SOCKET_ERR_IN_PROGRESS
              then Yield [LSocket obj] udata K_finshaccept
              else Raise (Error (pal_socket_get_error_str pal err)),
              obj, [Call_accept s])))"

definition finshconnect :: "pal_socket_api \<Rightarrow> lua_stack \<Rightarrow> int \<Rightarrow> lua_KContext \<Rightarrow> outcome" where
  "finshconnect pal st status extra =
     (case lua_index st 1 of
        Some v1 \<Rightarrow>
          (let err = lua_tointeger v1
           in if err = PAL_SOCKET_ERR_OK then lua_return st 0
              else if err = PAL_SOCKET_ERR_IN_PROGRESS then Yield st extra K_finshconnect
              else Raise (Error (pal_socket_get_error_str pal err)))
      | None \<Rightarrow> Raise ApiMisuse)"

definition finshsend :: "pal_socket_api \<Rightarrow> lua_stack \<Rightarrow> int \<Rightarrow> lua_KContext \<Rightarrow> outcome" where
  "finshsend pal st status extra =
     (case lua_index st 2 of
        Some v2 \<Rightarrow>
          (let all = (extra \<noteq> 0);
               err = lua_tointeger v2
           in if err = PAL_SOCKET_ERR_OK then lua_return st (if all then 0 else 1)
              else if err = PAL_SOCKET_ERR_IN_PROGRESS then Yield st extra K_finshsend
              else Raise (Error (pal_socket_get_error_str pal err)))
      | None \<Rightarrow> Raise ApiMisuse)"

definition finshrecv :: "pal_socket_api \<Rightarrow> lua_stack \<Rightarrow> int \<Rightarrow> lua_KContext \<Rightarrow> outcome" where
  "finshrecv pal st status extra =
     (case lua_index st 1 of
        Some v1 \<Rightarrow>
          (let isrecvfrom = (extra \<noteq> 0);
               err = lua_tointeger v1
           in if err = PAL_SOCKET_ERR_OK
              then (if isrecvfrom then lua_return (lua_pop st 1) 3
                    else lua_return (lua_pop (lua_pop st 1) 2) 1)
              else if err = PAL_SOCKET_ERR_IN_PROGRESS then Yield st extra K_finshrecv
              else Raise (Error (pal_socket_get_error_str pal err)))
      | None \<Rightarrow> Raise ApiMisuse)"

definition lsocket_obj_connect ::
  "pal_socket_api \<Rightarrow> int \<Rightarrow> lsocket_obj \<Rightarrow> string \<Rightarrow> int \<Rightarrow> lsocket_result" where
  "lsocket_obj_connect pal udata obj addr port =
     (case lsocket_obj_get obj of
        Inl e \<Rightarrow> (Raise e, obj, [])
      | Inr s \<Rightarrow>
          (if \<not> (port \<ge> 0 \<and> port \<le> 65535) then (Raise (ArgError 3 ''port out of range''), obj, [])
           else (finshconnect pal
                   [LSocket obj, LString addr, LInteger port, LInteger (pal_socket_connect pal s addr port)]
                   1 udata,
                 obj, [Call_connect s addr port])))"

definition lsocket_obj_sent_int ::
  "pal_socket_api \<Rightarrow> lsocket_obj \<Rightarrow> string \<Rightarrow> bool \<Rightarrow> lsocket_result" where
  "lsocket_obj_sent_int pal obj data all =
     (case lsocket_obj_get obj of
        Inl e \<Rightarrow> (Raise e, obj, [])
      | Inr s \<Rightarrow>
          (case pal_socket_send pal s data all of (err, sent_len) \<Rightarrow>
             (finshsend pal [LSocket obj, LString data, LInteger err, LInteger (int sent_len)]
                2 (if all then 1 else 0),
              obj, [Call_send s data all])))"

definition lsocket_obj_send :: "pal_socket_api \<Rightarrow> lsocket_obj \<Rightarrow> string \<Rightarrow> lsocket_result" where
  "lsocket_obj_send pal obj data = lsocket_obj_sent_int pal obj data False"

definition lsocket_obj_sendall :: "pal_socket_api \<Rightarrow> lsocket_obj \<Rightarrow> string \<Rightarrow> lsocket_result" where
  "lsocket_obj_sendall pal obj data = lsocket_obj_sent_int pal obj data True"

definition lsocket_obj_sendto ::
  "pal_socket_api \<Rightarrow> lsocket_obj \<Rightarrow> string \<Rightarrow> string \<Rightarrow> int \<Rightarrow> lsocket_result" where
  "lsocket_obj_sendto pal obj data addr port =
     (case lsocket_obj_get obj of
        Inl e \<Rightarrow> (Raise e, obj, [])
      | Inr s \<Rightarrow>
          (if \<not> (port \<ge> 0 \<and> port \<le> 65535) then (Raise (ArgError 4 ''port out of range''), obj, [])
           else (case pal_socket_sendto pal s data addr port False of (err, sent_len) \<Rightarrow>
             (finshsend pal
                [LSocket obj, LString data, LString addr, LInteger port, LInteger err,
                 LInteger (int sent_len)]
                0 0,
              obj, [Call_sendto s data addr port]))))"

definition lsocket_obj_recv :: "pal_socket_api \<Rightarrow> lsocket_obj \<Rightarrow> int \<Rightarrow> lsocket_result" where
  "lsocket_obj_recv pal obj maxlen =
     (case lsocket_obj_get obj of
        Inl e \<Rightarrow> (Raise e, obj, [])
      | Inr s \<Rightarrow>
          (finshrecv pal [LSocket obj, LInteger maxlen, LInteger (pal_socket_recv pal s maxlen)] 1 0,
           obj, [Call_recv s maxlen]))"

definition lsocket_obj_recvfrom :: "pal_socket_api \<Rightarrow> lsocket_obj \<Rightarrow> int \<Rightarrow> lsocket_result" where
  "lsocket_obj_recvfrom pal obj maxlen =
     (case lsocket_obj_get obj of
        Inl e \<Rightarrow> (Raise e, obj, [])
      | Inr s \<Rightarrow>
          (finshrecv pal [LSocket obj, LInteger maxlen, LInteger (pal_socket_recv pal s maxlen)] 1 1,
           obj, [Call_recv s maxlen]))"

definition lsocket_obj_readable :: "pal_socket_api \<Rightarrow> lsocket_obj \<Rightarrow> lsocket_result" where
  "lsocket_obj_readable pal obj =
     (case lsocket_obj_get obj of
        Inl e \<Rightarrow> (Raise e, obj, [])
      | Inr s \<Rightarrow> (Return [LBoolean (pal_socket_readable pal s)], obj, [Call_readable s]))"

definition lsocket_obj_destroy :: "lsocket_obj \<Rightarrow> lsocket_result" where
  "lsocket_obj_destroy obj =
     (case lsocket_obj_get obj of
        Inl e \<Rightarrow> (Raise e, obj, [])
      | Inr s \<Rightarrow> (Return [], obj\<lparr>socket := None\<rparr>, [Call_destroy s]))"

text \<open>The finalizer, the metamethods \<open>__gc\<close> and \<open>__close\<close>: it does not go through \<open>lsocket_obj_get\<close>.\<close>

definition lsocket_obj_gc :: "lsocket_obj \<Rightarrow> lsocket_result" where
  "lsocket_obj_gc obj =
     (case socket obj of
        Some s \<Rightarrow> (Return [], obj\<lparr>socket := None\<rparr>, [Call_destroy s])
      | None \<Rightarrow> (Return [], obj, []))"

text \<open>The method table \<open>lsocket_obj_meth\<close>: a call names a method and carries its arguments.\<close>

datatype lsocket_call =
    Settimeout int
  | Enablebroadcast
  | Bind string int
  | Listen int
  | Accept
  | Connect string int
  | Send string
  | Sendall string
  | Sendto string string int
  | Recv int
  | Recvfrom int
  | Readable
  | Destroy

fun lsocket_obj_meth :: "pal_socket_api \<Rightarrow> int \<Rightarrow> lsocket_call \<Rightarrow> lsocket_obj \<Rightarrow> lsocket_result" where
  "lsocket_obj_meth pal udata (Settimeout ms) obj = lsocket_obj_settimeout obj ms"
| "lsocket_obj_meth pal udata Enablebroadcast obj = lsocket_obj_enablebroadcast pal obj"
| "lsocket_obj_meth pal udata (Bind addr port) obj = lsocket_obj_bind pal obj addr port"
| "lsocket_obj_meth pal udata (Listen backlog) obj = lsocket_obj_listen pal obj backlog"
| "lsocket_obj_meth pal udata Accept obj = lsocket_obj_accept pal udata obj"
| "lsocket_obj_meth pal udata (Connect addr port) obj = lsocket_obj_connect pal udata obj addr port"
| "lsocket_obj_meth pal udata (Send data) obj = lsocket_obj_send pal obj data"
| "lsocket_obj_meth pal udata (Sendall data) obj = lsocket_obj_sendall pal obj data"
| "lsocket_obj_meth pal udata (Sendto data addr port) obj = lsocket_obj_sendto pal obj data addr port"
| "lsocket_obj_meth pal udata (Recv maxlen) obj = lsocket_obj_recv pal obj maxlen"
| "lsocket_obj_meth pal udata (Recvfrom maxlen) obj = lsocket_obj_recvfrom pal obj maxlen"
| "lsocket_obj_meth pal udata Readable obj = lsocket_obj_readable pal obj"
| "lsocket_obj_meth pal udata Destroy obj = lsocket_obj_destroy obj"

section \<open>Asynchronous DNS resolution\<close>

text \<open>Decimal digits of a number: \<open>lua_tolstring\<close> turns a number into its numeral.\<close>

fun digits :: "nat \<Rightarrow> string" where
  "digits n = (if n < 10 then [char_of (48 + n)] else digits (n div 10) @ [char_of (48 + n mod 10)])"

definition lua_tolstring :: "lua_value \<Rightarrow> string option" where
  "lua_tolstring v =
     (case v of
        LString s \<Rightarrow> Some s
      | LInteger n \<Rightarrow> Some (if n < 0 then CHR ''-'' # digits (nat (- n)) else digits (nat n))
      | _ \<Rightarrow> None)"

text \<open>
  \<open>luaL_checkstring(L, arg)\<close>: the string at the positive index \<open>arg\<close>; a number there is
  converted to a string in place. Anything else is an argument error.
\<close>

definition luaL_checkstring :: "lua_stack \<Rightarrow> nat \<Rightarrow> lua_error + (string \<times> lua_stack)" where
  "luaL_checkstring st arg =
     (if 1 \<le> arg \<and> arg \<le> length st
      then (case lua_tolstring (st ! (arg - 1)) of
              Some s \<Rightarrow> Inr (s, st[arg - 1 := LString s])
            | None \<Rightarrow> Inl (ArgError arg ''string expected''))
      else Inl (ArgError arg ''string expected''))"

text \<open>
  \<open>luaL_checkoption(L, arg, def, lst)\<close> with a default: an absent or nil argument is the
  default, a string is looked up in the list, and its position is the result. The error
  message puts the name between single quotes.
\<close>

fun find_option :: "string list \<Rightarrow> string \<Rightarrow> nat \<Rightarrow> nat option" where
  "find_option [] name i = None"
| "find_option (x # xs) name i = (if x = name then Some i else find_option xs name (Suc i))"

definition luaL_checkoption ::
  "lua_stack \<Rightarrow> nat \<Rightarrow> string \<Rightarrow> string list \<Rightarrow> lua_error + (nat \<times> lua_stack)" where
  "luaL_checkoption st arg def lst =
     (case (if 1 \<le> arg \<and> arg \<le> length st \<and> st ! (arg - 1) \<noteq> LNil
            then luaL_checkstring st arg else Inr (def, st)) of
        Inl e \<Rightarrow> Inl e
      | Inr (name, st') \<Rightarrow>
          (case find_option lst name 0 of
             Some i \<Rightarrow> Inr (i, st')
           | None \<Rightarrow> Inl (ArgError arg (''invalid option '' @ [CHR 0x27] @ name @ [CHR 0x27]))))"

definition ldns_family_strs :: "string list" where
  "ldns_family_strs = [[], ''IPV4'', ''IPV6'']"

definition finshresolve :: "lua_stack \<Rightarrow> int \<Rightarrow> lua_KContext \<Rightarrow> outcome" where
  "finshresolve st status extra =
     (case lua_index st 1 of
        Some v1 \<Rightarrow>
          (if status \<noteq> 1 \<or> \<not> lua_isstring v1 then Raise (Error ''failed to resolve'')
           else lua_return st 1)
      | None \<Rightarrow> Raise ApiMisuse)"

text \<open>
  \<open>ldns_resolve\<close> on the arguments \<open>st\<close> of the call. \<open>pal_dns_start_request\<close> is not among
  the sources: the parameter tells whether the request for a host name and an address
  family could be started.
\<close>

definition ldns_resolve :: "(string \<Rightarrow> nat \<Rightarrow> bool) \<Rightarrow> lua_stack \<Rightarrow> outcome" where
  "ldns_resolve pal_dns_start_request st =
     (case luaL_checkstring st 1 of
        Inl e \<Rightarrow> Raise e
      | Inr (hostname, st1) \<Rightarrow>
          (case luaL_checkoption st1 2 [] ldns_family_strs of
             Inl e \<Rightarrow> Raise e
           | Inr (af, st2) \<Rightarrow>
               (if \<not> pal_dns_start_request hostname af
                then Raise (Error ''failed to start DNS resolution request'')
                else Yield st2 0 K_finshresolve)))"

text \<open>
  Resumption. \<open>lc_resumethread\<close> is not among the sources; it is taken to be
  \<open>lua_resume\<close>: the continuation function of the suspended C function runs with status
  \<open>LUA_YIELD\<close> on the stack the function left, with the resumption's arguments on top.
  A coroutine that is not suspended cannot be resumed.
\<close>

definition lc_resumethread :: "pal_socket_api \<Rightarrow> outcome \<Rightarrow> lua_value list \<Rightarrow> outcome" where
  "lc_resumethread pal co args =
     (case co of
        Yield st ctx K_finshaccept \<Rightarrow> finshaccept pal (st @ args) LUA_YIELD ctx
      | Yield st ctx K_finshconnect \<Rightarrow> finshconnect pal (st @ args) LUA_YIELD ctx
      | Yield st ctx K_finshsend \<Rightarrow> finshsend pal (st @ args) LUA_YIELD ctx
      | Yield st ctx K_finshrecv \<Rightarrow> finshrecv pal (st @ args) LUA_YIELD ctx
      | Yield st ctx K_finshresolve \<Rightarrow> finshresolve (st @ args) LUA_YIELD ctx
      | Yield st ctx K_NULL \<Rightarrow> Return args
      | _ \<Rightarrow> Raise (Error ''cannot resume non-suspended coroutine''))"

text \<open>The completion callbacks the methods hand to the platform layer.\<close>

definition lsocket_accepted_cb ::
  "pal_socket_api \<Rightarrow> pal_socket_err \<Rightarrow> nat option \<Rightarrow> string \<Rightarrow> int \<Rightarrow> outcome \<Rightarrow> outcome" where
  "lsocket_accepted_cb pal err new_o addr port co =
     lc_resumethread pal co [LInteger err, LLightUserdata new_o, LString addr, LInteger port]"

definition lsocket_connected_cb :: "pal_socket_api \<Rightarrow> pal_socket_err \<Rightarrow> outcome \<Rightarrow> outcome" where
  "lsocket_connected_cb pal err co = lc_resumethread pal co [LInteger err]"

definition lsocket_sent_cb :: "pal_socket_api \<Rightarrow> pal_socket_err \<Rightarrow> nat \<Rightarrow> outcome \<Rightarrow> outcome" where
  "lsocket_sent_cb pal err sent_len co = lc_resumethread pal co [LInteger err, LInteger (int sent_len)]"

definition lsocket_recved_cb ::
  "pal_socket_api \<Rightarrow> pal_socket_err \<Rightarrow> string \<Rightarrow> int \<Rightarrow> string \<Rightarrow> outcome \<Rightarrow> outcome" where
  "lsocket_recved_cb pal err addr port data co =
     lc_resumethread pal co [LString data, LString addr, LInteger port, LInteger err]"

text \<open>The completion callback of a DNS request: \<open>addr\<close> is \<open>None\<close> when nothing was resolved.\<close>

definition ldns_response_cb :: "pal_socket_api \<Rightarrow> string option \<Rightarrow> outcome \<Rightarrow> outcome" where
  "ldns_response_cb pal addr co =
     lc_resumethread pal co (case addr of Some a \<Rightarrow> [LString a] | None \<Rightarrow> [])"

text \<open>
  A completion as the platform layer reports it, and the callback it goes to. A method
  registers one callback: \<open>connect\<close> the connected one, the three sending methods the
  sent one, the two receiving methods the received one.
\<close>

datatype completion =
    Accepted pal_socket_err "nat option" string int
  | Connected pal_socket_err
  | Sent pal_socket_err nat
  | Recved pal_socket_err string int string

fun completion_err :: "completion \<Rightarrow> pal_socket_err" where
  "completion_err (Accepted err _ _ _) = err"
| "completion_err (Connected err) = err"
| "completion_err (Sent err _) = err"
| "completion_err (Recved err _ _ _) = err"

fun complete :: "pal_socket_api \<Rightarrow> outcome \<Rightarrow> completion \<Rightarrow> outcome" where
  "complete pal co (Accepted err new_o addr port) = lsocket_accepted_cb pal err new_o addr port co"
| "complete pal co (Connected err) = lsocket_connected_cb pal err co"
| "complete pal co (Sent err sent_len) = lsocket_sent_cb pal err sent_len co"
| "complete pal co (Recved err addr port data) = lsocket_recved_cb pal err addr port data co"

fun completes :: "lsocket_call \<Rightarrow> completion \<Rightarrow> bool" where
  "completes (Connect _ _) (Connected _) = True"
| "completes (Send _) (Sent _ _) = True"
| "completes (Sendall _) (Sent _ _) = True"
| "completes (Sendto _ _ _) (Sent _ _) = True"
| "completes (Recv _) (Recved _ _ _ _) = True"
| "completes (Recvfrom _) (Recved _ _ _ _) = True"
| "completes _ _ = False"

text \<open>A suspended coroutine, and the same coroutine after each of a list of completions.\<close>

definition suspended :: "outcome \<Rightarrow> lua_KContext \<Rightarrow> lua_KFunction \<Rightarrow> bool" where
  "suspended co ctx k = (case co of Yield _ ctx' k' \<Rightarrow> ctx' = ctx \<and> k' = k | _ \<Rightarrow> False)"

definition complete_all :: "pal_socket_api \<Rightarrow> outcome \<Rightarrow> completion list \<Rightarrow> outcome" where
  "complete_all pal co cs = foldl (complete pal) co cs"


text \<open>The continuation function a completion is meant for.\<close>

fun continues :: "lua_KFunction \<Rightarrow> completion \<Rightarrow> bool" where
  "continues K_finshconnect (Connected _) = True"
| "continues K_finshsend (Sent _ _) = True"
| "continues K_finshrecv (Recved _ _ _ _) = True"
| "continues _ _ = False"

text \<open>
  The request of an operation is in progress: the arguments pass the checks of the method,
  and the platform layer answers the request with \<open>PAL_SOCKET_ERR_IN_PROGRESS\<close>.
\<close>

fun starts_in_progress :: "pal_socket_api \<Rightarrow> nat \<Rightarrow> lsocket_call \<Rightarrow> bool" where
  "starts_in_progress pal s (Connect addr port) =
     (0 \<le> port \<and> port \<le> 65535 \<and> pal_socket_connect pal s addr port = PAL_SOCKET_ERR_IN_PROGRESS)"
| "starts_in_progress pal s (Send data) =
     (fst (pal_socket_send pal s data False) = PAL_SOCKET_ERR_IN_PROGRESS)"
| "starts_in_progress pal s (Sendall data) =
     (fst (pal_socket_send pal s data True) = PAL_SOCKET_ERR_IN_PROGRESS)"
| "starts_in_progress pal s (Sendto data addr port) =
     (0 \<le> port \<and> port \<le> 65535
      \<and> fst (pal_socket_sendto pal s data addr port False) = PAL_SOCKET_ERR_IN_PROGRESS)"
| "starts_in_progress pal s (Recv maxlen) = (pal_socket_recv pal s maxlen = PAL_SOCKET_ERR_IN_PROGRESS)"
| "starts_in_progress pal s (Recvfrom maxlen) = (pal_socket_recv pal s maxlen = PAL_SOCKET_ERR_IN_PROGRESS)"
| "starts_in_progress pal s _ = False"

text \<open>A platform layer that completes no request at once: every request stays in progress.\<close>

definition pal_busy :: pal_socket_api where
  "pal_busy =
     \<lparr>pal_socket_enable_broadcast = (\<lambda>_. PAL_SOCKET_ERR_OK),
      pal_socket_bind = (\<lambda>_ _ _. PAL_SOCKET_ERR_OK),
      pal_socket_listen = (\<lambda>_ _. PAL_SOCKET_ERR_OK),
      pal_socket_accept = (\<lambda>_. (PAL_SOCKET_ERR_IN_PROGRESS, None, [], 0)),
      pal_socket_connect = (\<lambda>_ _ _. PAL_SOCKET_ERR_IN_PROGRESS),
      pal_socket_send = (\<lambda>_ data _. (PAL_SOCKET_ERR_IN_PROGRESS, length data)),
      pal_socket_sendto = (\<lambda>_ data _ _ _. (PAL_SOCKET_ERR_IN_PROGRESS, length data)),
      pal_socket_recv = (\<lambda>_ _. PAL_SOCKET_ERR_IN_PROGRESS),
      pal_socket_readable = (\<lambda>_. False),
      pal_socket_get_error_str = (\<lambda>_. ''socket error'')\<rparr>"

section \<open>Blocking message queue\<close>

text \<open>
  \<open>size_t\<close> on the target is 32 bits wide; the arithmetic of \<open>lmq_size\<close> wraps around.
\<close>

type_synonym size_t = "32 word"

record lmq_obj =
  qfirst :: size_t
  qlast :: size_t
  qsize :: size_t

text \<open>
  A queue is the userdata \<open>qobj\<close> (the structure \<open>lmq_obj\<close> with its fields \<open>first\<close>,
  \<open>last\<close> and \<open>size\<close>) and its user value, a Lua table: the buffered messages under the
  integer keys, and under the key \<open>wait\<close> either nil or the table of the
  coroutines suspended in \<open>recv\<close>, oldest first. A coroutine is known by a number.
\<close>

record lmq =
  qobj :: lmq_obj
  slots :: "size_t \<Rightarrow> lua_value list option"
  wait :: "nat list option"

definition lmq_size :: "lmq_obj \<Rightarrow> size_t" where
  "lmq_size ob =
     (if qfirst ob > qlast ob then qsize ob - qfirst ob + qlast ob else qlast ob - qfirst ob)"

text \<open>\<open>lmq_create\<close>: the argument is a Lua integer, converted to \<open>size_t\<close>.\<close>

definition lmq_create :: "int \<Rightarrow> lua_error + lmq" where
  "lmq_create n =
     (let sz = (word_of_int n :: size_t)
      in if \<not> sz > 0 then Inl (ArgError 1 ''size out of range'')
         else Inr \<lparr>qobj = \<lparr>qfirst = 1, qlast = 1, qsize = sz\<rparr>, slots = (\<lambda>_. None), wait = None\<rparr>)"

text \<open>
  Resuming a waiting coroutine runs it until it suspends again or ends; in that time it may
  use the queue itself. \<open>lc_resumethread\<close> and the coroutine's body are not among the
  sources: the parameter \<open>run\<close> gives the queue after coroutine \<open>co\<close> ran on the values
  \<open>args\<close>. The loop of \<open>lmq_obj_send\<close> goes over the table of waiters that it took out of the
  queue before the first resumption.
\<close>

fun resume_waiting ::
  "(nat \<Rightarrow> lua_value list \<Rightarrow> lmq \<Rightarrow> lmq) \<Rightarrow> nat list \<Rightarrow> lua_value list \<Rightarrow> lmq \<Rightarrow> lmq" where
  "resume_waiting run [] args q = q"
| "resume_waiting run (co # cos) args q = resume_waiting run cos args (run co args q)"

text \<open>
  \<open>lmq_obj_send\<close> on the values \<open>args\<close>. The result is how the call ends, the queue after
  it, and the resumptions it made, in order: the coroutine and the values handed to it.
\<close>

definition lmq_obj_send ::
  "(nat \<Rightarrow> lua_value list \<Rightarrow> lmq \<Rightarrow> lmq) \<Rightarrow> lua_value list \<Rightarrow> lmq
     \<Rightarrow> outcome \<times> lmq \<times> (nat \<times> lua_value list) list" where
  "lmq_obj_send run args q =
     (case wait q of
        Some waiting \<Rightarrow>
          (Return [], resume_waiting run waiting args (q\<lparr>wait := None\<rparr>),
           map (\<lambda>co. (co, args)) waiting)
      | None \<Rightarrow>
          (if lmq_size (qobj q) = qsize (qobj q) then (Raise (Error ''the message queue is full''), q, [])
           else (let o1 = (qobj q)\<lparr>qlast := qlast (qobj q) + 1\<rparr>;
                     o2 = (if qlast o1 > qsize o1 + 1 then o1\<lparr>qlast := 1\<rparr> else o1)
                 in (Return [], q\<lparr>slots := (slots q)(qlast (qobj q) \<mapsto> args), qobj := o2\<rparr>, []))))"

text \<open>
  \<open>luaL_len\<close> on the table of a buffered message. \<open>lmq_obj_send\<close> creates the table with
  one array slot for each value and stores the values under the keys 1, 2, \<dots>; a nil value
  leaves its slot empty. The length of a table is one of its borders. Lua 5.4 (\<open>luaH_getn\<close>)
  finds it in the array: the number of slots if the last one is not empty, one less if the
  last but one is not empty, and otherwise the result of a binary search between 0 and the
  number of slots. The length of a message without nil at its end is the number of its
  values.
\<close>

function binsearch :: "lua_value list \<Rightarrow> nat \<Rightarrow> nat \<Rightarrow> nat" where
  "binsearch array i j =
     (if j - i > 1
      then (let m = (i + j) div 2
            in if array ! (m - 1) = LNil then binsearch array i m else binsearch array m j)
      else i)"
  by pat_completeness auto
termination
  by (relation "measure (\<lambda>(array, i, j). j - i)") auto

declare binsearch.simps [simp del]

definition luaL_len :: "lua_value list \<Rightarrow> nat" where
  "luaL_len t =
     (let limit = length t
      in if limit > 0 \<and> t ! (limit - 1) = LNil
         then (if limit \<ge> 2 \<and> t ! (limit - 2) \<noteq> LNil then limit - 1 else binsearch t 0 limit)
         else limit)"

text \<open>
  \<open>lmq_obj_recv\<close>, called by coroutine \<open>co\<close> with the queue as its only argument. On an
  empty buffer the caller is appended to the waiters and suspends without a continuation
  function: the values of the resumption are then the results of the call. Otherwise the
  oldest message is taken out of the buffer, and its values at the keys 1 to \<open>luaL_len\<close>
  are the results.
\<close>

definition lmq_obj_recv :: "nat \<Rightarrow> lmq \<Rightarrow> outcome \<times> lmq" where
  "lmq_obj_recv co q =
     (if qlast (qobj q) = qfirst (qobj q)
      then (Yield [] 0 K_NULL,
            q\<lparr>wait := (case wait q of None \<Rightarrow> Some [co] | Some waiting \<Rightarrow> Some (waiting @ [co]))\<rparr>)
      else (case slots q (qfirst (qobj q)) of
              None \<Rightarrow> (Raise (Error ''attempt to get length of a nil value''), q)
            | Some msg \<Rightarrow>
                (let o1 = (qobj q)\<lparr>qfirst := qfirst (qobj q) + 1\<rparr>;
                     o2 = (if qfirst o1 > qsize o1 + 1 then o1\<lparr>qfirst := 1\<rparr> else o1)
                 in (Return (take (luaL_len msg) msg),
                     q\<lparr>slots := (slots q)(qfirst (qobj q) := None), qobj := o2\<rparr>))))"

text \<open>A sequence of calls on one queue, each with its outcome.\<close>

datatype lmq_call = Q_send "lua_value list" | Q_recv nat

fun lmq_calls ::
  "(nat \<Rightarrow> lua_value list \<Rightarrow> lmq \<Rightarrow> lmq) \<Rightarrow> lmq_call list \<Rightarrow> lmq \<Rightarrow> outcome list \<times> lmq" where
  "lmq_calls run [] q = ([], q)"
| "lmq_calls run (Q_send args # cs) q =
     (case lmq_obj_send run args q of (r, q', _) \<Rightarrow>
        (case lmq_calls run cs q' of (rs, q'') \<Rightarrow> (r # rs, q'')))"
| "lmq_calls run (Q_recv co # cs) q =
     (case lmq_obj_recv co q of (r, q') \<Rightarrow>
        (case lmq_calls run cs q' of (rs, q'') \<Rightarrow> (r # rs, q'')))"

text \<open>Coroutines that end, once resumed, without using the queue.\<close>

definition run_to_end :: "nat \<Rightarrow> lua_value list \<Rightarrow> lmq \<Rightarrow> lmq" where
  "run_to_end co args q = q"

text \<open>A fresh queue of capacity 1, and a queue of capacity 4 with two waiting coroutines.\<close>

definition lmq_fresh1 :: lmq where
  "lmq_fresh1 = \<lparr>qobj = \<lparr>qfirst = 1, qlast = 1, qsize = 1\<rparr>, slots = (\<lambda>_. None), wait = None\<rparr>"

definition lmq_two_waiting :: lmq where
  "lmq_two_waiting = \<lparr>qobj = \<lparr>qfirst = 1, qlast = 1, qsize = 4\<rparr>, slots = (\<lambda>_. None), wait = Some [1, 2]\<rparr>"

section \<open>The run loop: state\<close>

type_synonym addr = nat

type_synonym HAPTime = "64 word"

type_synonym byte = "8 word"

text \<open>
  What stops the process (\<open>HAPPrecondition\<close>, \<open>HAPAssert\<close>, \<open>HAPFatalError\<close>), and the
  access to memory that is not allocated: a pointer that is \<open>NULL\<close> or dangling.
\<close>

datatype fault = PreconditionFailed | AssertionFailed | FatalError | InvalidAccess

datatype HAPError = kHAPError_None | kHAPError_Unknown | kHAPError_OutOfResources

record HAPPlatformFileHandleEvent =
  isReadyForReading :: bool
  isReadyForWriting :: bool
  hasErrorConditionPending :: bool

text \<open>A callback is known by a number (its address); \<open>None\<close> is \<open>NULL\<close>, for every pointer.\<close>

record HAPPlatformFileHandle =
  fileDescriptor :: int
  interests :: HAPPlatformFileHandleEvent
  callback :: "nat option"
  contextPtr :: "nat option"  \<comment> \<open>the field \<open>context\<close>\<close>
  prevFileHandle :: "addr option"
  nextFileHandle :: "addr option"
  isAwaitingEvents :: bool

record HAPPlatformTimer =
  deadline :: HAPTime
  timerCallback :: nat
  timerContext :: "nat option"

datatype HAPPlatformRunLoopState =
    kHAPPlatformRunLoopState_Idle
  | kHAPPlatformRunLoopState_Running
  | kHAPPlatformRunLoopState_Stopping

text \<open>
  The static structure \<open>runLoop\<close>. The file handles live in memory, \<open>mem\<close>, at their
  addresses: the sentinel \<open>fileHandleSentinel\<close> at the address \<open>fileHandles\<close> points to,
  every registered handle where \<open>calloc\<close> put it. The linked list of timers is a list, each
  timer with its address (the timer reference handed to the caller).
\<close>

record runLoop =
  mem :: "addr \<Rightarrow> HAPPlatformFileHandle option"
  fileHandles :: addr
  fileHandleCursor :: "addr option"
  timers :: "(addr \<times> HAPPlatformTimer) list"
  loopbackBytes :: "byte list"
  numLoopbackBytes :: nat
  state :: HAPPlatformRunLoopState

section \<open>The loopback channel\<close>

text \<open>
  A scheduled callback travels as a frame: the callback pointer, \<open>psz\<close> bytes
  (\<open>sizeof (HAPPlatformRunLoopCallback)\<close>, which the target fixes), one byte with the size
  of the context, and the context.
\<close>

definition frame_bytes :: "byte list \<Rightarrow> byte list \<Rightarrow> byte list" where
  "frame_bytes cb ctx = cb @ [of_nat (length ctx)] @ ctx"

text \<open>The size of the buffer \<open>loopbackBytes\<close>.\<close>

definition sizeof_loopbackBytes :: "nat \<Rightarrow> nat" where
  "sizeof_loopbackBytes psz = psz + 1 + 255"

text \<open>
  \<open>HAPPlatformRunLoopScheduleCallback\<close>: the callback pointer as its bytes \<open>cb\<close>, the
  context as its bytes, \<open>None\<close> for \<open>NULL\<close>. \<open>PIPE_BUF\<close> comes from the target's headers and
  is a parameter; so is \<open>sent\<close>, which tells whether \<open>send\<close> succeeded. The result is the
  return value and the bytes written to the sending socket. A context shorter than
  \<open>contextSize\<close> would be read past its end.
\<close>

definition HAPPlatformRunLoopScheduleCallback ::
  "nat \<Rightarrow> bool \<Rightarrow> byte list \<Rightarrow> byte list option \<Rightarrow> nat \<Rightarrow> fault + (HAPError \<times> byte list)" where
  "HAPPlatformRunLoopScheduleCallback PIPE_BUF sent cb context contextSize =
     (if \<not> (contextSize = 0 \<or> context \<noteq> None) then Inl PreconditionFailed
      else if contextSize > 255 then Inr (kHAPError_OutOfResources, [])
      else if contextSize + 1 + length cb > PIPE_BUF then Inr (kHAPError_OutOfResources, [])
      else if (case context of Some ctx \<Rightarrow> length ctx < contextSize | None \<Rightarrow> False)
      then Inl InvalidAccess
      else (let bytes = cb @ [of_nat contextSize] @
                  (case context of Some ctx \<Rightarrow> take contextSize ctx | None \<Rightarrow> [])
            in if \<not> sent then Inr (kHAPError_Unknown, [])
               else Inr (kHAPError_None, bytes)))"

text \<open>
  \<open>HAPRawBufferCopyBytes\<close> within one array: \<open>n\<close> bytes from offset \<open>src\<close> to offset \<open>dst\<close>,
  the ranges overlapping.
\<close>

definition copy_within :: "byte list \<Rightarrow> nat \<Rightarrow> nat \<Rightarrow> nat \<Rightarrow> byte list" where
  "copy_within bytes dst src n = take dst bytes @ take n (drop src bytes) @ drop (dst + n) bytes"

text \<open>
  A dispatch: the callback pointer, the context handed to the callback (\<open>NULL\<close> for a
  context of size 0) and the context size.
\<close>

type_synonym dispatch = "byte list \<times> byte list option \<times> nat"

text \<open>
  The loop of \<open>HandleLoopbackFileHandleCallback\<close> over the frames in the buffer. \<open>char\<close> is
  unsigned on the target, so the size byte is a number from 0 to 255.
\<close>

function dispatch_frames :: "nat \<Rightarrow> byte list \<times> nat \<Rightarrow> (byte list \<times> nat) \<times> dispatch list" where
  "dispatch_frames psz (bytes, num) =
     (if num < psz + 1 then ((bytes, num), [])
      else (let contextSize = unat (bytes ! psz)
            in if num < psz + 1 + contextSize then ((bytes, num), [])
               else (let callback = take psz bytes;
                         bytes1 = copy_within bytes 0 (psz + 1) (num - (psz + 1));
                         num1 = num - (psz + 1);
                         d = (callback, if contextSize \<noteq> 0 then Some (take contextSize bytes1) else None,
                              contextSize);
                         bytes2 = copy_within bytes1 0 contextSize (num1 - contextSize);
                         num2 = num1 - contextSize
                     in (case dispatch_frames psz (bytes2, num2) of (b, ds) \<Rightarrow> (b, d # ds)))))"
  by pat_completeness auto
termination
  by (relation "measure (\<lambda>(psz, bytes, num). num)") auto

text \<open>
  What \<open>recv\<close> on the receiving socket gave, after the retries on \<open>EINTR\<close>: nothing to read
  (\<open>EAGAIN\<close>), another error, or bytes (none at all when \<open>recv\<close> returned 0).
\<close>

datatype recv_result = Recv_EAGAIN | Recv_error | Recv_bytes "byte list"

definition HandleLoopbackFileHandleCallback ::
  "nat \<Rightarrow> recv_result \<Rightarrow> runLoop \<Rightarrow> fault + (runLoop \<times> dispatch list)" where
  "HandleLoopbackFileHandleCallback psz r s =
     (if \<not> numLoopbackBytes s < sizeof_loopbackBytes psz then Inl AssertionFailed
      else (case r of
              Recv_EAGAIN \<Rightarrow> Inr (s, [])
            | Recv_error \<Rightarrow> Inl FatalError
            | Recv_bytes bs \<Rightarrow>
                (if bs = [] then Inl FatalError
                 else if \<not> length bs \<le> sizeof_loopbackBytes psz - numLoopbackBytes s
                 then Inl AssertionFailed
                 else (let bytes = take (numLoopbackBytes s) (loopbackBytes s) @ bs @
                                     drop (numLoopbackBytes s + length bs) (loopbackBytes s);
                           num = numLoopbackBytes s + length bs
                       in (case dispatch_frames psz (bytes, num) of
                             ((bytes', num'), ds) \<Rightarrow>
                               Inr (s\<lparr>loopbackBytes := bytes', numLoopbackBytes := num'\<rparr>, ds))))))"

text \<open>The receiver callback, run on one read after the other; the dispatches add up.\<close>

fun loopback_reads :: "nat \<Rightarrow> byte list list \<Rightarrow> runLoop \<Rightarrow> fault + (runLoop \<times> dispatch list)" where
  "loopback_reads psz [] s = Inr (s, [])"
| "loopback_reads psz (bs # reads) s =
     (case HandleLoopbackFileHandleCallback psz (Recv_bytes bs) s of
        Inl f \<Rightarrow> Inl f
      | Inr (s', ds) \<Rightarrow>
          (case loopback_reads psz reads s' of
             Inl f \<Rightarrow> Inl f
           | Inr (s'', ds') \<Rightarrow> Inr (s'', ds @ ds')))"

text \<open>
  The frames of a byte sequence, as the specification describes the channel: each complete
  frame in order, and the bytes of the incomplete frame at the end.
\<close>

function frames_of :: "nat \<Rightarrow> byte list \<Rightarrow> (byte list \<times> byte list) list \<times> byte list" where
  "frames_of psz bs =
     (if length bs < psz + 1 then ([], bs)
      else if length bs < psz + 1 + unat (bs ! psz) then ([], bs)
      else (case frames_of psz (drop (psz + 1 + unat (bs ! psz)) bs) of
              (fs, rest) \<Rightarrow> ((take psz bs, take (unat (bs ! psz)) (drop (psz + 1) bs)) # fs, rest)))"
  by pat_completeness auto
termination
  by (relation "measure (\<lambda>(psz, bs). length bs)") auto

declare dispatch_frames.simps [simp del]

declare frames_of.simps [simp del]

text \<open>The dispatch a frame is to cause.\<close>

definition dispatch_of :: "byte list \<times> byte list \<Rightarrow> dispatch" where
  "dispatch_of f = (fst f, if snd f \<noteq> [] then Some (snd f) else None, length (snd f))"

text \<open>
  Reads as \<open>recv\<close> can deliver them: each has at least one byte and at most as many as the
  buffer has free, \<open>buf\<close> being the bytes that wait in the buffer.
\<close>

fun reads_fit :: "nat \<Rightarrow> byte list \<Rightarrow> byte list list \<Rightarrow> bool" where
  "reads_fit psz buf [] = True"
| "reads_fit psz buf (bs # reads) =
     (bs \<noteq> [] \<and> length buf + length bs \<le> sizeof_loopbackBytes psz
      \<and> reads_fit psz (snd (frames_of psz (buf @ bs))) reads)"

text \<open>Bytes that do not make a complete frame: they stay in the buffer.\<close>

definition incomplete_frame :: "nat \<Rightarrow> byte list \<Rightarrow> bool" where
  "incomplete_frame psz bs = (length bs < psz + 1 \<or> length bs < psz + 1 + unat (bs ! psz))"

text \<open>The buffer of the run loop holds the bytes \<open>buf\<close>, and nothing else that counts.\<close>

definition buffered :: "nat \<Rightarrow> runLoop \<Rightarrow> byte list \<Rightarrow> bool" where
  "buffered psz s buf =
     (length (loopbackBytes s) = sizeof_loopbackBytes psz \<and> numLoopbackBytes s = length buf
      \<and> take (numLoopbackBytes s) (loopbackBytes s) = buf)"

text \<open>
  The run loop as its initializer leaves it, with the sentinel at address 0, a circular
  list of its own, and the loopback buffer empty.
\<close>

definition fileHandleSentinel :: HAPPlatformFileHandle where
  "fileHandleSentinel =
     \<lparr>fileDescriptor = - 1,
      interests = \<lparr>isReadyForReading = False, isReadyForWriting = False,
                   hasErrorConditionPending = False\<rparr>,
      callback = None, contextPtr = None,
      prevFileHandle = Some 0, nextFileHandle = Some 0,
      isAwaitingEvents = False\<rparr>"

definition runLoop_init :: "nat \<Rightarrow> runLoop" where
  "runLoop_init psz =
     \<lparr>mem = (\<lambda>a. if a = 0 then Some fileHandleSentinel else None),
      fileHandles = 0, fileHandleCursor = Some 0,
      timers = [],
      loopbackBytes = replicate (sizeof_loopbackBytes psz) 0, numLoopbackBytes = 0,
      state = kHAPPlatformRunLoopState_Idle\<rparr>"

section \<open>File handles\<close>

text \<open>Running one computation after another, unless the first stops the process.\<close>

definition bindf :: "fault + 'a \<Rightarrow> ('a \<Rightarrow> fault + 'b) \<Rightarrow> fault + 'b" where
  "bindf m f = (case m of Inl e \<Rightarrow> Inl e | Inr x \<Rightarrow> f x)"

text \<open>Reading the structure a pointer points to, and writing it back.\<close>

definition load :: "runLoop \<Rightarrow> addr option \<Rightarrow> fault + HAPPlatformFileHandle" where
  "load s p =
     (case p of
        None \<Rightarrow> Inl InvalidAccess
      | Some a \<Rightarrow> (case mem s a of None \<Rightarrow> Inl InvalidAccess | Some fh \<Rightarrow> Inr fh))"

definition store :: "addr \<Rightarrow> HAPPlatformFileHandle \<Rightarrow> runLoop \<Rightarrow> runLoop" where
  "store a fh s = s\<lparr>mem := (mem s)(a \<mapsto> fh)\<rparr>"

text \<open>
  \<open>HAPPlatformFileHandleRegister\<close>. The first argument is what \<open>calloc\<close> returns: \<open>None\<close>
  when no memory is left, else the address of the new structure. The result is the return
  value, the reference written to \<open>*fileHandleRef\<close>, and the run loop.
\<close>

definition HAPPlatformFileHandleRegister ::
  "addr option \<Rightarrow> int \<Rightarrow> HAPPlatformFileHandleEvent \<Rightarrow> nat option \<Rightarrow> nat option \<Rightarrow> runLoop
     \<Rightarrow> fault + (HAPError \<times> addr option \<times> runLoop)" where
  "HAPPlatformFileHandleRegister p fd i cb ctx s =
     (case p of
        None \<Rightarrow> Inr (kHAPError_OutOfResources, None, s)
      | Some fileHandle \<Rightarrow>
          bindf (load s (Some (fileHandles s))) (\<lambda>sentinel.
          let s1 = store fileHandle
                     \<lparr>fileDescriptor = fd, interests = i, callback = cb, contextPtr = ctx,
                      prevFileHandle = prevFileHandle sentinel,
                      nextFileHandle = Some (fileHandles s),
                      isAwaitingEvents = False\<rparr> s
          in bindf (load s1 (Some (fileHandles s1))) (\<lambda>sentinel1.
             bindf (load s1 (prevFileHandle sentinel1)) (\<lambda>prev.
             let s2 = store (the (prevFileHandle sentinel1)) (prev\<lparr>nextFileHandle := Some fileHandle\<rparr>) s1
             in bindf (load s2 (Some (fileHandles s2))) (\<lambda>sentinel2.
                let s3 = store (fileHandles s2) (sentinel2\<lparr>prevFileHandle := Some fileHandle\<rparr>) s2
                in Inr (kHAPError_None, Some fileHandle, s3))))))"

definition HAPPlatformFileHandleUpdateInterests ::
  "addr option \<Rightarrow> HAPPlatformFileHandleEvent \<Rightarrow> nat option \<Rightarrow> nat option \<Rightarrow> runLoop
     \<Rightarrow> fault + runLoop" where
  "HAPPlatformFileHandleUpdateInterests fileHandleRef i cb ctx s =
     (case fileHandleRef of
        None \<Rightarrow> Inl PreconditionFailed
      | Some fileHandle \<Rightarrow>
          bindf (load s (Some fileHandle)) (\<lambda>fh.
          Inr (store fileHandle (fh\<lparr>interests := i, callback := cb, contextPtr := ctx\<rparr>) s)))"

text \<open>
  \<open>HAPPlatformFileHandleDeregister\<close> (\<open>fileHandleRef\<close> is its parameter \<open>fileHandle_\<close>).
  The structure is unlinked, cleared and freed: its
  address is no longer allocated.
\<close>

definition HAPPlatformFileHandleDeregister :: "addr option \<Rightarrow> runLoop \<Rightarrow> fault + runLoop" where
  "HAPPlatformFileHandleDeregister fileHandleRef s =
     (case fileHandleRef of
        None \<Rightarrow> Inl PreconditionFailed
      | Some fileHandle \<Rightarrow>
          bindf (load s (Some fileHandle)) (\<lambda>fh.
          if prevFileHandle fh = None then Inl PreconditionFailed
          else if nextFileHandle fh = None then Inl PreconditionFailed
          else
            let s1 = (if Some fileHandle = fileHandleCursor s
                      then s\<lparr>fileHandleCursor := nextFileHandle fh\<rparr> else s)
            in bindf (load s1 (prevFileHandle fh)) (\<lambda>prev.
               let s2 = store (the (prevFileHandle fh)) (prev\<lparr>nextFileHandle := nextFileHandle fh\<rparr>) s1
               in bindf (load s2 (Some fileHandle)) (\<lambda>fh2.
                  bindf (load s2 (nextFileHandle fh2)) (\<lambda>next.
                  let s3 = store (the (nextFileHandle fh2)) (next\<lparr>prevFileHandle := prevFileHandle fh2\<rparr>) s2
                  in Inr (s3\<lparr>mem := (mem s3)(fileHandle := None)\<rparr>))))))"

section \<open>Timers\<close>

text \<open>
  The insertion loop of \<open>HAPPlatformTimerRegister\<close>: the new timer goes before the first
  timer whose deadline is greater than \<open>deadline\<close>, the deadline as the caller gave it.
\<close>

fun insert_timer ::
  "addr \<times> HAPPlatformTimer \<Rightarrow> HAPTime \<Rightarrow> (addr \<times> HAPPlatformTimer) list
     \<Rightarrow> (addr \<times> HAPPlatformTimer) list" where
  "insert_timer newTimer dl [] = [newTimer]"
| "insert_timer newTimer dl (nextTimer # ts) =
     (if deadline (snd nextTimer) > dl then newTimer # nextTimer # ts
      else nextTimer # insert_timer newTimer dl ts)"

text \<open>\<open>HAPPlatformTimerRegister\<close>; the first argument is again what \<open>calloc\<close> returns.\<close>

definition HAPPlatformTimerRegister ::
  "addr option \<Rightarrow> HAPTime \<Rightarrow> nat option \<Rightarrow> nat option \<Rightarrow> runLoop
     \<Rightarrow> fault + (HAPError \<times> addr option \<times> runLoop)" where
  "HAPPlatformTimerRegister p dl cb ctx s =
     (case cb of
        None \<Rightarrow> Inl PreconditionFailed
      | Some c \<Rightarrow>
          (case p of
             None \<Rightarrow> Inr (kHAPError_OutOfResources, None, s)
           | Some newTimer \<Rightarrow>
               Inr (kHAPError_None, Some newTimer,
                    s\<lparr>timers :=
                        insert_timer
                          (newTimer, \<lparr>deadline = (if dl \<noteq> 0 then dl else 1), timerCallback = c,
                                      timerContext = ctx\<rparr>)
                          dl (timers s)\<rparr>)))"

fun remove_timer :: "addr \<Rightarrow> (addr \<times> HAPPlatformTimer) list \<Rightarrow> (addr \<times> HAPPlatformTimer) list option" where
  "remove_timer timer [] = None"
| "remove_timer timer (nextTimer # ts) =
     (if fst nextTimer = timer then Some ts
      else (case remove_timer timer ts of None \<Rightarrow> None | Some ts' \<Rightarrow> Some (nextTimer # ts')))"

definition HAPPlatformTimerDeregister :: "addr option \<Rightarrow> runLoop \<Rightarrow> fault + runLoop" where
  "HAPPlatformTimerDeregister timerRef s =
     (case timerRef of
        None \<Rightarrow> Inl PreconditionFailed
      | Some timer \<Rightarrow>
          (case remove_timer timer (timers s) of
             None \<Rightarrow> Inl FatalError
           | Some ts \<Rightarrow> Inr (s\<lparr>timers := ts\<rparr>)))"

definition HAPPlatformRunLoopStop :: "runLoop \<Rightarrow> runLoop" where
  "HAPPlatformRunLoopStop s =
     (if state s = kHAPPlatformRunLoopState_Running
      then s\<lparr>state := kHAPPlatformRunLoopState_Stopping\<rparr> else s)"

section \<open>Callbacks\<close>

text \<open>
  What a callback does is not part of the run loop. Here a callback, run on the loop's
  thread, makes calls of the run loop's interface, one after the other.
\<close>

datatype api_call =
    FileHandleRegister "addr option" int HAPPlatformFileHandleEvent "nat option" "nat option"
  | FileHandleUpdateInterests "addr option" HAPPlatformFileHandleEvent "nat option" "nat option"
  | FileHandleDeregister "addr option"
  | TimerRegister "addr option" HAPTime "nat option" "nat option"
  | TimerDeregister "addr option"
  | RunLoopStop

fun api :: "api_call \<Rightarrow> runLoop \<Rightarrow> fault + runLoop" where
  "api (FileHandleRegister p fd i cb ctx) s =
     bindf (HAPPlatformFileHandleRegister p fd i cb ctx s) (\<lambda>(err, fileHandle, s'). Inr s')"
| "api (FileHandleUpdateInterests fileHandle i cb ctx) s =
     HAPPlatformFileHandleUpdateInterests fileHandle i cb ctx s"
| "api (FileHandleDeregister fileHandle) s = HAPPlatformFileHandleDeregister fileHandle s"
| "api (TimerRegister p dl cb ctx) s =
     bindf (HAPPlatformTimerRegister p dl cb ctx s) (\<lambda>(err, timer, s'). Inr s')"
| "api (TimerDeregister timer) s = HAPPlatformTimerDeregister timer s"
| "api RunLoopStop s = Inr (HAPPlatformRunLoopStop s)"

text \<open>
  The invocation of a callback by the run loop: of a file handle's callback, with the
  callback, the handle, the events and the context, or of a timer's callback, with the
  callback, the timer and the context.
\<close>

datatype invocation =
    FileHandleCallback nat addr HAPPlatformFileHandleEvent "nat option"
  | TimerCallback nat addr "nat option"

text \<open>What happens in the run loop, in order: the invocations and the callbacks' calls.\<close>

datatype occurrence = Invoked invocation | Called api_call

text \<open>
  The behaviour of the callbacks: the calls an invocation makes, which may depend on all
  that has happened and on the run loop as the callback finds it.
\<close>

type_synonym callbacks = "occurrence list \<Rightarrow> invocation \<Rightarrow> runLoop \<Rightarrow> api_call list"

fun calls :: "api_call list \<Rightarrow> runLoop \<times> occurrence list \<Rightarrow> fault + (runLoop \<times> occurrence list)" where
  "calls [] st = Inr st"
| "calls (c # cs) (s, tr) = bindf (api c s) (\<lambda>s'. calls cs (s', tr @ [Called c]))"

definition invoke ::
  "callbacks \<Rightarrow> invocation \<Rightarrow> runLoop \<times> occurrence list \<Rightarrow> fault + (runLoop \<times> occurrence list)" where
  "invoke cbs i st = calls (cbs (snd st) i (fst st)) (fst st, snd st @ [Invoked i])"

section \<open>Processing expired timers and selected file handles\<close>

text \<open>
  \<open>ProcessExpiredTimers\<close>, with the time \<open>now\<close> that the clock gives at its start. The
  expired timer is taken off the list before its callback runs.
\<close>

partial_function (option) ProcessExpiredTimers ::
  "callbacks \<Rightarrow> HAPTime \<Rightarrow> runLoop \<times> occurrence list \<Rightarrow> (fault + (runLoop \<times> occurrence list)) option" where
  "ProcessExpiredTimers cbs now st =
     (case timers (fst st) of
        [] \<Rightarrow> Some (Inr st)
      | expiredTimer # ts \<Rightarrow>
          (if deadline (snd expiredTimer) > now then Some (Inr st)
           else (case invoke cbs
                        (TimerCallback (timerCallback (snd expiredTimer)) (fst expiredTimer)
                           (timerContext (snd expiredTimer)))
                        ((fst st)\<lparr>timers := ts\<rparr>, snd st) of
                   Inl f \<Rightarrow> Some (Inl f)
                 | Inr st' \<Rightarrow> ProcessExpiredTimers cbs now st')))"

text \<open>The descriptor sets that \<open>select\<close> filled in.\<close>

record fd_sets =
  readFileDescriptors :: "int \<Rightarrow> bool"
  writeFileDescriptors :: "int \<Rightarrow> bool"
  errorFileDescriptors :: "int \<Rightarrow> bool"

definition fileHandleEvents :: "fd_sets \<Rightarrow> HAPPlatformFileHandle \<Rightarrow> HAPPlatformFileHandleEvent" where
  "fileHandleEvents sel fh =
     \<lparr>isReadyForReading =
        (isReadyForReading (interests fh) \<and> readFileDescriptors sel (fileDescriptor fh)),
      isReadyForWriting =
        (isReadyForWriting (interests fh) \<and> writeFileDescriptors sel (fileDescriptor fh)),
      hasErrorConditionPending =
        (hasErrorConditionPending (interests fh) \<and> errorFileDescriptors sel (fileDescriptor fh))\<rparr>"

text \<open>The body of the loop of \<open>ProcessSelectedFileHandles\<close>, for a cursor that is not at the sentinel.\<close>

definition visit_file_handle ::
  "callbacks \<Rightarrow> fd_sets \<Rightarrow> runLoop \<times> occurrence list \<Rightarrow> fault + (runLoop \<times> occurrence list)" where
  "visit_file_handle cbs sel st =
     (let s = fst st; fileHandle = fileHandleCursor s
      in bindf (load s fileHandle) (\<lambda>fh.
         let s1 = s\<lparr>fileHandleCursor := nextFileHandle fh\<rparr>
         in if isAwaitingEvents fh
            then (if fileDescriptor fh = - 1 then Inl AssertionFailed
                  else (let s2 = store (the fileHandle) (fh\<lparr>isAwaitingEvents := False\<rparr>) s1
                        in case callback fh of
                             None \<Rightarrow> Inr (s2, snd st)
                           | Some cb \<Rightarrow>
                               (let ev = fileHandleEvents sel fh
                                in if isReadyForReading ev \<or> isReadyForWriting ev
                                      \<or> hasErrorConditionPending ev
                                   then invoke cbs (FileHandleCallback cb (the fileHandle) ev (contextPtr fh))
                                          (s2, snd st)
                                   else Inr (s2, snd st))))
            else Inr (s1, snd st)))"

partial_function (option) visit_file_handles ::
  "callbacks \<Rightarrow> fd_sets \<Rightarrow> runLoop \<times> occurrence list \<Rightarrow> (fault + (runLoop \<times> occurrence list)) option" where
  "visit_file_handles cbs sel st =
     (if fileHandleCursor (fst st) = Some (fileHandles (fst st)) then Some (Inr st)
      else (case visit_file_handle cbs sel st of
              Inl f \<Rightarrow> Some (Inl f)
            | Inr st' \<Rightarrow> visit_file_handles cbs sel st'))"

definition ProcessSelectedFileHandles ::
  "callbacks \<Rightarrow> fd_sets \<Rightarrow> runLoop \<times> occurrence list \<Rightarrow> (fault + (runLoop \<times> occurrence list)) option" where
  "ProcessSelectedFileHandles cbs sel st =
     (case load (fst st) (Some (fileHandles (fst st))) of
        Inl f \<Rightarrow> Some (Inl f)
      | Inr sentinel \<Rightarrow>
          visit_file_handles cbs sel ((fst st)\<lparr>fileHandleCursor := nextFileHandle sentinel\<rparr>, snd st))"

section \<open>The circular list of file handles\<close>

text \<open>The links of the structure at an address, if one is allocated there.\<close>

definition nxt :: "(addr \<Rightarrow> HAPPlatformFileHandle option) \<Rightarrow> addr \<Rightarrow> addr option" where
  "nxt m a = (case m a of None \<Rightarrow> None | Some fh \<Rightarrow> nextFileHandle fh)"

definition prv :: "(addr \<Rightarrow> HAPPlatformFileHandle option) \<Rightarrow> addr \<Rightarrow> addr option" where
  "prv m a = (case m a of None \<Rightarrow> None | Some fh \<Rightarrow> prevFileHandle fh)"

text \<open>
  Each element of a list of addresses is linked to the one after it, forward and
  backward.
\<close>

fun links :: "(addr \<Rightarrow> addr option) \<Rightarrow> (addr \<Rightarrow> addr option) \<Rightarrow> addr list \<Rightarrow> bool" where
  "links nx pv [] = True"
| "links nx pv [x] = True"
| "links nx pv (x # y # zs) = (nx x = Some y \<and> pv y = Some x \<and> links nx pv (y # zs))"

text \<open>
  The registered file handles are \<open>xs\<close>, in this order: the sentinel and the handles are
  linked in a circle, no handle occurs twice, and nothing else is allocated.
\<close>

definition file_handle_list :: "runLoop \<Rightarrow> addr list \<Rightarrow> bool" where
  "file_handle_list s xs =
     (distinct (fileHandles s # xs)
      \<and> links (nxt (mem s)) (prv (mem s)) (fileHandles s # xs @ [fileHandles s])
      \<and> dom (mem s) = set (fileHandles s # xs))"

text \<open>What a file handle holds apart from its links.\<close>

definition payload ::
  "HAPPlatformFileHandle \<Rightarrow> int \<times> HAPPlatformFileHandleEvent \<times> nat option \<times> nat option \<times> bool" where
  "payload fh = (fileDescriptor fh, interests fh, callback fh, contextPtr fh, isAwaitingEvents fh)"

definition pay ::
  "(addr \<Rightarrow> HAPPlatformFileHandle option) \<Rightarrow> addr
     \<Rightarrow> (int \<times> HAPPlatformFileHandleEvent \<times> nat option \<times> nat option \<times> bool) option" where
  "pay m a = map_option payload (m a)"

section \<open>Callbacks that register and deregister file handles\<close>

text \<open>
  A call that a callback may make during the delivery of events: a registration, for
  which \<open>calloc\<close> gives memory that is not in use (or none), or the deregistration of a
  file handle that is registered.
\<close>

fun file_handle_call_ok :: "runLoop \<Rightarrow> api_call \<Rightarrow> bool" where
  "file_handle_call_ok s (FileHandleRegister p fd i cb ctx) =
     (case p of None \<Rightarrow> True | Some a \<Rightarrow> mem s a = None)"
| "file_handle_call_ok s (FileHandleDeregister h) =
     (case h of None \<Rightarrow> False | Some a \<Rightarrow> a \<noteq> fileHandles s \<and> mem s a \<noteq> None)"
| "file_handle_call_ok s _ = False"

text \<open>Each call of a sequence is such a call when it is made.\<close>

fun calls_ok :: "runLoop \<Rightarrow> api_call list \<Rightarrow> bool" where
  "calls_ok s [] = True"
| "calls_ok s (c # cs) =
     (file_handle_call_ok s c \<and> (case api c s of Inl f \<Rightarrow> True | Inr s' \<Rightarrow> calls_ok s' cs))"

text \<open>The callbacks make only such calls, whenever they find the list of file handles intact.\<close>

definition register_deregister_only :: "callbacks \<Rightarrow> bool" where
  "register_deregister_only cbs = (\<forall>tr i s xs. file_handle_list s xs \<longrightarrow> calls_ok s (cbs tr i s))"

text \<open>
  An occurrence touches an address when it registers a file handle there or deregisters
  the file handle there; it invokes a handle when it is the invocation of its callback.
\<close>

fun touches :: "occurrence \<Rightarrow> addr \<Rightarrow> bool" where
  "touches (Called (FileHandleRegister p fd i cb ctx)) a = (p = Some a)"
| "touches (Called (FileHandleDeregister h)) a = (h = Some a)"
| "touches e a = False"

fun invoked_handle :: "occurrence \<Rightarrow> addr option" where
  "invoked_handle (Invoked (FileHandleCallback cb h ev ctx)) = Some h"
| "invoked_handle e = None"

definition touched :: "occurrence list \<Rightarrow> addr \<Rightarrow> bool" where
  "touched tr a = list_ex (\<lambda>e. touches e a) tr"

definition invoked :: "occurrence list \<Rightarrow> addr \<Rightarrow> bool" where
  "invoked tr a = list_ex (\<lambda>e. invoked_handle e = Some a) tr"

text \<open>
  A handle awaits events, has a callback, and \<open>select\<close> reported an event it is
  interested in: its callback is due.
\<close>

definition due :: "fd_sets \<Rightarrow> runLoop \<Rightarrow> addr \<Rightarrow> bool" where
  "due sel s h =
     (case mem s h of
        None \<Rightarrow> False
      | Some fh \<Rightarrow>
          isAwaitingEvents fh \<and> callback fh \<noteq> None
          \<and> (isReadyForReading (fileHandleEvents sel fh) \<or> isReadyForWriting (fileHandleEvents sel fh)
               \<or> hasErrorConditionPending (fileHandleEvents sel fh)))"

text \<open>The invocation of the callback of a handle, as its structure and the selected descriptors determine it.\<close>

definition invocation_of :: "fd_sets \<Rightarrow> runLoop \<Rightarrow> addr \<Rightarrow> occurrence" where
  "invocation_of sel s h =
     (case mem s h of
        None \<Rightarrow> Invoked (FileHandleCallback 0 h (fileHandleEvents sel fileHandleSentinel) None)
      | Some fh \<Rightarrow>
          Invoked (FileHandleCallback (the (callback fh)) h (fileHandleEvents sel fh) (contextPtr fh)))"

text \<open>
  The run loop marks a handle as awaiting events only when it has a file descriptor.
\<close>

definition awaiting_with_descriptor :: "runLoop \<Rightarrow> addr list \<Rightarrow> bool" where
  "awaiting_with_descriptor s xs =
     list_all (\<lambda>h. case mem s h of
                  None \<Rightarrow> True
                | Some fh \<Rightarrow> \<not> (isAwaitingEvents fh \<and> fileDescriptor fh = - 1)) xs"

text \<open>
  A trace is orderly for the handles \<open>xs\<close>: every invocation is of one of these handles, not
  invoked before and not touched before. The trace is looked at from its end.
\<close>

fun orderly_rev :: "addr list \<Rightarrow> occurrence list \<Rightarrow> bool" where
  "orderly_rev xs [] = True"
| "orderly_rev xs (e # earlier) =
     ((case invoked_handle e of
         None \<Rightarrow> True
       | Some h \<Rightarrow> h \<in> set xs \<and> \<not> touched earlier h \<and> \<not> invoked earlier h)
      \<and> orderly_rev xs earlier)"

definition orderly :: "addr list \<Rightarrow> occurrence list \<Rightarrow> bool" where
  "orderly xs tr = orderly_rev xs (rev tr)"

section \<open>The delivery of events: what holds between two callbacks\<close>

text \<open>The number of handles in a list that await events.\<close>

definition awaits :: "runLoop \<Rightarrow> addr \<Rightarrow> bool" where
  "awaits s h = (case mem s h of None \<Rightarrow> False | Some fh \<Rightarrow> isAwaitingEvents fh)"

definition awaiting_count :: "runLoop \<Rightarrow> addr list \<Rightarrow> nat" where
  "awaiting_count s l = length (filter (awaits s) l)"

text \<open>
  The state of a pass over the file handles \<open>xs0\<close> of the run loop \<open>s0\<close>. The registered
  handles are now \<open>dn\<close>, which the cursor has passed, and \<open>todo\<close>, which it has not, and it
  points to the first of these. A handle still to visit is either as it was when the pass
  began, untouched and not invoked, or it has been registered during the pass and does not
  await events. The trace is orderly. A handle whose callback was due when the pass began
  is still to be visited, or its callback has been invoked, or it has been deregistered.
\<close>

definition pass_inv ::
  "fd_sets \<Rightarrow> runLoop \<Rightarrow> addr list \<Rightarrow> runLoop \<Rightarrow> occurrence list \<Rightarrow> addr list \<Rightarrow> addr list \<Rightarrow> bool" where
  "pass_inv sel s0 xs0 s tr dn todo =
     (file_handle_list s (dn @ todo)
      \<and> fileHandleCursor s = Some (hd (todo @ [fileHandles s]))
      \<and> fileHandles s = fileHandles s0
      \<and> (\<forall>h \<in> set todo.
            if touched tr h then \<not> awaits s h
            else h \<in> set xs0 \<and> pay (mem s) h = pay (mem s0) h \<and> \<not> invoked tr h)
      \<and> orderly xs0 tr
      \<and> (\<forall>h \<in> set xs0. due sel s0 h \<longrightarrow>
            (h \<in> set todo \<and> \<not> touched tr h) \<or> invocation_of sel s0 h \<in> set tr
            \<or> Called (FileHandleDeregister (Some h)) \<in> set tr)
      \<and> awaiting_with_descriptor s0 xs0)"

section \<open>An example: three file handles and their callbacks\<close>

definition read_interest :: HAPPlatformFileHandleEvent where
  "read_interest =
     \<lparr>isReadyForReading = True, isReadyForWriting = False, hasErrorConditionPending = False\<rparr>"

text \<open>
  A run loop with the file handles 1, 2 and 3, registered in this order, each interested
  in reading and awaiting events, and the callbacks 1, 2 and 3.
\<close>

definition runLoop_three :: runLoop where
  "runLoop_three =
     \<lparr>mem = (\<lambda>a.
         if a = 0 then Some (fileHandleSentinel\<lparr>prevFileHandle := Some 3, nextFileHandle := Some 1\<rparr>)
         else if a = 1 then
           Some \<lparr>fileDescriptor = 11, interests = read_interest, callback = Some 1, contextPtr = None,
                 prevFileHandle = Some 0, nextFileHandle = Some 2, isAwaitingEvents = True\<rparr>
         else if a = 2 then
           Some \<lparr>fileDescriptor = 12, interests = read_interest, callback = Some 2, contextPtr = None,
                 prevFileHandle = Some 1, nextFileHandle = Some 3, isAwaitingEvents = True\<rparr>
         else if a = 3 then
           Some \<lparr>fileDescriptor = 13, interests = read_interest, callback = Some 3, contextPtr = None,
                 prevFileHandle = Some 2, nextFileHandle = Some 0, isAwaitingEvents = True\<rparr>
         else None),
      fileHandles = 0, fileHandleCursor = Some 0,
      timers = [],
      loopbackBytes = [], numLoopbackBytes = 0,
      state = kHAPPlatformRunLoopState_Running\<rparr>"

definition all_selected :: fd_sets where
  "all_selected =
     \<lparr>readFileDescriptors = (\<lambda>fd. True), writeFileDescriptors = (\<lambda>fd. True),
      errorFileDescriptors = (\<lambda>fd. True)\<rparr>"

text \<open>
  Callback 1 deregisters the file handle 2, if it is registered; callback 3 registers a
  file handle, for which \<open>calloc\<close> finds memory at address 4 if that is not in use; every
  other callback makes no call.
\<close>

definition callbacks_example :: callbacks where
  "callbacks_example tr i s =
     (case i of
        FileHandleCallback cb h ev ctx \<Rightarrow>
          (if cb = 1
           then (if 2 \<noteq> fileHandles s \<and> mem s 2 \<noteq> None then [FileHandleDeregister (Some 2)] else [])
           else if cb = 3
           then (if mem s 4 = None then [FileHandleRegister (Some 4) 14 ev (Some 4) None]
                 else [FileHandleRegister None 14 ev (Some 4) None])
           else [])
      | TimerCallback cb t ctx \<Rightarrow> [])"

text \<open>The run loop after two timers were registered with deadline 0, the callbacks 1 and 2.\<close>

definition runLoop_two_timers :: runLoop where
  "runLoop_two_timers =
     (runLoop_init 4)
       \<lparr>timers := [(2, \<lparr>deadline = 1, timerCallback = 2, timerContext = None\<rparr>),
                   (1, \<lparr>deadline = 1, timerCallback = 1, timerContext = None\<rparr>)]\<rparr>"

text \<open>
  The invariant of the timer list: stored deadlines ascend and none of them is 0.
\<close>

definition timers_sorted :: "(addr \<times> HAPPlatformTimer) list \<Rightarrow> bool" where
  "timers_sorted ts = (sorted (map (deadline \<circ> snd) ts) \<and> list_all (\<lambda>t. deadline (snd t) \<noteq> 0) ts)"

chapter \<open>Properties\<close>

section \<open>Socket primitives\<close>

lemma lua_index_last [simp]: "lua_index (st @ [v]) (Suc 0) = Some v"
  by (simp add: lua_index_def)

lemma lua_index_last2 [simp]: "lua_index (st @ [v, w]) 2 = Some v"
  by (simp add: lua_index_def nth_append)

lemma in_progress_not_ok: "PAL_SOCKET_ERR_IN_PROGRESS \<noteq> PAL_SOCKET_ERR_OK"
  by (simp add: PAL_SOCKET_ERR_IN_PROGRESS_def PAL_SOCKET_ERR_OK_def)

lemma finshconnect_in_progress:
  "finshconnect pal (st @ [LInteger PAL_SOCKET_ERR_IN_PROGRESS]) status extra =
     Yield (st @ [LInteger PAL_SOCKET_ERR_IN_PROGRESS]) extra K_finshconnect"
  by (simp add: finshconnect_def in_progress_not_ok)

lemma finshsend_in_progress:
  "finshsend pal (st @ [LInteger PAL_SOCKET_ERR_IN_PROGRESS, n]) status extra =
     Yield (st @ [LInteger PAL_SOCKET_ERR_IN_PROGRESS, n]) extra K_finshsend"
  by (simp add: finshsend_def in_progress_not_ok)

lemma finshrecv_in_progress:
  "finshrecv pal (st @ [data, addr, port, LInteger PAL_SOCKET_ERR_IN_PROGRESS]) status extra =
     Yield (st @ [data, addr, port, LInteger PAL_SOCKET_ERR_IN_PROGRESS]) extra K_finshrecv"
proof -
  have "lua_index (st @ [data, addr, port, LInteger PAL_SOCKET_ERR_IN_PROGRESS]) 1 =
          Some (LInteger PAL_SOCKET_ERR_IN_PROGRESS)"
    using lua_index_last [of "st @ [data, addr, port]"] by simp
  then show ?thesis
    by (simp add: finshrecv_def in_progress_not_ok)
qed

text \<open>One completion that reports "in progress" leaves the coroutine suspended as it was.\<close>

lemma complete_in_progress:
  assumes "suspended co ctx k" and "continues k c"
    and "completion_err c = PAL_SOCKET_ERR_IN_PROGRESS"
  shows "suspended (complete pal co c) ctx k"
proof -
  from assms(1) obtain st where co: "co = Yield st ctx k"
    by (auto simp: suspended_def split: outcome.splits)
  show ?thesis
  proof (cases c)
    case (Accepted e p a q)
    with assms(2) show ?thesis by (cases k) simp_all
  next
    case (Connected e)
    with assms have "k = K_finshconnect" "e = PAL_SOCKET_ERR_IN_PROGRESS" by (cases k; simp)+
    with co Connected show ?thesis
      by (simp add: lsocket_connected_cb_def lc_resumethread_def finshconnect_in_progress
          suspended_def)
  next
    case (Sent e n)
    with assms have "k = K_finshsend" "e = PAL_SOCKET_ERR_IN_PROGRESS" by (cases k; simp)+
    with co Sent show ?thesis
      by (simp add: lsocket_sent_cb_def lc_resumethread_def finshsend_in_progress suspended_def)
  next
    case (Recved e a q d)
    with assms have "k = K_finshrecv" "e = PAL_SOCKET_ERR_IN_PROGRESS" by (cases k; simp)+
    with co Recved show ?thesis
      by (simp add: lsocket_recved_cb_def lc_resumethread_def finshrecv_in_progress suspended_def)
  qed
qed

lemma complete_all_in_progress:
  assumes "suspended co ctx k"
    and "list_all (\<lambda>c. continues k c \<and> completion_err c = PAL_SOCKET_ERR_IN_PROGRESS) cs"
  shows "suspended (complete_all pal co cs) ctx k"
  using assms
proof (induction cs arbitrary: co)
  case Nil
  then show ?case by (simp add: complete_all_def)
next
  case (Cons c cs)
  from Cons.prems have "suspended (complete pal co c) ctx k"
    by (simp add: complete_in_progress)
  with Cons.IH [of "complete pal co c"] Cons.prems(2) show ?case
    by (simp add: complete_all_def)
qed

lemma raise_not_suspended [simp]: "\<not> suspended (Raise e) ctx k"
  by (simp add: suspended_def)

text \<open>
  An operation whose request is in progress suspends its coroutine, with the context and
  the continuation function it hands to \<open>lua_yieldk\<close>.
\<close>

lemma sent_int_in_progress:
  assumes "fst (pal_socket_send pal s data all) = PAL_SOCKET_ERR_IN_PROGRESS"
  shows "suspended (fst (lsocket_obj_sent_int pal \<lparr>socket = Some s\<rparr> data all))
           (if all then 1 else 0) K_finshsend"
proof -
  obtain n where "pal_socket_send pal s data all = (PAL_SOCKET_ERR_IN_PROGRESS, n)"
    using assms by (cases "pal_socket_send pal s data all") simp
  then show ?thesis
    using finshsend_in_progress [of pal "[LSocket \<lparr>socket = Some s\<rparr>, LString data]" "LInteger (int n)"]
    by (simp add: lsocket_obj_sent_int_def lsocket_obj_get_def suspended_def)
qed

lemma method_in_progress:
  assumes "starts_in_progress pal s call"
  shows "suspended (fst (lsocket_obj_meth pal udata call \<lparr>socket = Some s\<rparr>))
           (case call of Connect _ _ \<Rightarrow> udata | Sendall _ \<Rightarrow> 1 | Recvfrom _ \<Rightarrow> 1 | _ \<Rightarrow> 0)
           (case call of Connect _ _ \<Rightarrow> K_finshconnect | Recv _ \<Rightarrow> K_finshrecv
              | Recvfrom _ \<Rightarrow> K_finshrecv | _ \<Rightarrow> K_finshsend)"
proof (cases call)
  case (Connect addr port)
  with assms show ?thesis
    using finshconnect_in_progress [of pal "[LSocket \<lparr>socket = Some s\<rparr>, LString addr, LInteger port]"]
    by (simp add: lsocket_obj_connect_def lsocket_obj_get_def suspended_def)
next
  case (Send data)
  with assms sent_int_in_progress [of pal s data False] show ?thesis
    by (simp add: lsocket_obj_send_def)
next
  case (Sendall data)
  with assms sent_int_in_progress [of pal s data True] show ?thesis
    by (simp add: lsocket_obj_sendall_def)
next
  case (Sendto data addr port)
  with assms obtain n where "pal_socket_sendto pal s data addr port False = (PAL_SOCKET_ERR_IN_PROGRESS, n)"
    by (cases "pal_socket_sendto pal s data addr port False") simp
  with Sendto assms show ?thesis
    using finshsend_in_progress [of pal "[LSocket \<lparr>socket = Some s\<rparr>, LString data, LString addr, LInteger port]" "LInteger (int n)"]
    by (simp add: lsocket_obj_sendto_def lsocket_obj_get_def suspended_def)
next
  case (Recv maxlen)
  with assms show ?thesis
    using finshconnect_in_progress
    by (simp add: lsocket_obj_recv_def lsocket_obj_get_def suspended_def finshrecv_def
        lua_index_def in_progress_not_ok)
next
  case (Recvfrom maxlen)
  with assms show ?thesis
    by (simp add: lsocket_obj_recvfrom_def lsocket_obj_get_def suspended_def finshrecv_def
        lua_index_def in_progress_not_ok)
qed (use assms in simp_all)

lemma completes_continues:
  assumes "completes call c"
  shows "continues (case call of Connect _ _ \<Rightarrow> K_finshconnect | Recv _ \<Rightarrow> K_finshrecv
              | Recvfrom _ \<Rightarrow> K_finshrecv | _ \<Rightarrow> K_finshsend) c"
  using assms by (cases call; cases c) simp_all

text \<open>
  C6. A socket operation \<open>call\<close> (connect, send, sendall, sendto, recv or recvfrom) is
  invoked on a live socket, and the platform layer answers its request with "in progress".
  Then the operation suspends its coroutine, and whatever number of completions of that
  operation report "in progress" again, the coroutine is suspended after each of them, with
  the context and the continuation function of the operation: \<open>finshconnect\<close> with the
  socket object for connect, \<open>finshsend\<close> with the flag \<open>all\<close> for the sending methods,
  \<open>finshrecv\<close> with the flag \<open>isrecvfrom\<close> for the receiving ones. A suspended coroutine
  has neither returned a value nor raised an error. The empty list of completions is the
  operation's own suspension, and every prefix of a list of such completions is such a
  list.
\<close>

theorem in_progress_resuspends:
  assumes "starts_in_progress pal s call"
    and "list_all (\<lambda>c. completes call c \<and> completion_err c = PAL_SOCKET_ERR_IN_PROGRESS) cs"
  shows "suspended (complete_all pal (fst (lsocket_obj_meth pal udata call \<lparr>socket = Some s\<rparr>)) cs)
           (case call of Connect _ _ \<Rightarrow> udata | Sendall _ \<Rightarrow> 1 | Recvfrom _ \<Rightarrow> 1 | _ \<Rightarrow> 0)
           (case call of Connect _ _ \<Rightarrow> K_finshconnect | Recv _ \<Rightarrow> K_finshrecv
              | Recvfrom _ \<Rightarrow> K_finshrecv | _ \<Rightarrow> K_finshsend)"
proof -
  from assms(2) have "list_all (\<lambda>c. continues (case call of Connect _ _ \<Rightarrow> K_finshconnect | Recv _ \<Rightarrow> K_finshrecv
              | Recvfrom _ \<Rightarrow> K_finshrecv | _ \<Rightarrow> K_finshsend) c \<and> completion_err c = PAL_SOCKET_ERR_IN_PROGRESS) cs"
    by (auto simp: list_all_iff intro: completes_continues)
  with method_in_progress [OF assms(1)] show ?thesis
    by (rule complete_all_in_progress)
qed

theorem in_progress_resuspends_witness:
  "starts_in_progress pal_busy 1 (Connect ''10.0.0.1'' 80)
   \<and> list_all (\<lambda>c. completes (Connect ''10.0.0.1'' 80) c \<and> completion_err c = PAL_SOCKET_ERR_IN_PROGRESS)
        [Connected PAL_SOCKET_ERR_IN_PROGRESS, Connected PAL_SOCKET_ERR_IN_PROGRESS]
   \<and> suspended
        (complete_all pal_busy
           (fst (lsocket_obj_meth pal_busy 5 (Connect ''10.0.0.1'' 80) \<lparr>socket = Some 1\<rparr>))
           [Connected PAL_SOCKET_ERR_IN_PROGRESS, Connected PAL_SOCKET_ERR_IN_PROGRESS])
        5 K_finshconnect
   \<and> starts_in_progress pal_busy 1 (Sendall ''abc'')
   \<and> list_all (\<lambda>c. completes (Sendall ''abc'') c \<and> completion_err c = PAL_SOCKET_ERR_IN_PROGRESS)
        [Sent PAL_SOCKET_ERR_IN_PROGRESS 1, Sent PAL_SOCKET_ERR_IN_PROGRESS 2]
   \<and> suspended
        (complete_all pal_busy
           (fst (lsocket_obj_meth pal_busy 5 (Sendall ''abc'') \<lparr>socket = Some 1\<rparr>))
           [Sent PAL_SOCKET_ERR_IN_PROGRESS 1, Sent PAL_SOCKET_ERR_IN_PROGRESS 2])
        1 K_finshsend
   \<and> starts_in_progress pal_busy 1 (Recvfrom 16)
   \<and> list_all (\<lambda>c. completes (Recvfrom 16) c \<and> completion_err c = PAL_SOCKET_ERR_IN_PROGRESS)
        [Recved PAL_SOCKET_ERR_IN_PROGRESS [] 0 [], Recved PAL_SOCKET_ERR_IN_PROGRESS [] 0 []]
   \<and> suspended
        (complete_all pal_busy
           (fst (lsocket_obj_meth pal_busy 5 (Recvfrom 16) \<lparr>socket = Some 1\<rparr>))
           [Recved PAL_SOCKET_ERR_IN_PROGRESS [] 0 [], Recved PAL_SOCKET_ERR_IN_PROGRESS [] 0 []])
        1 K_finshrecv"
proof -
  have c1: "starts_in_progress pal_busy 1 (Connect ''10.0.0.1'' 80)"
    by (simp add: pal_busy_def)
  have c2: "list_all (\<lambda>c. completes (Connect ''10.0.0.1'' 80) c \<and> completion_err c = PAL_SOCKET_ERR_IN_PROGRESS)
        [Connected PAL_SOCKET_ERR_IN_PROGRESS, Connected PAL_SOCKET_ERR_IN_PROGRESS]"
    by simp
  have s1: "starts_in_progress pal_busy 1 (Sendall ''abc'')"
    by (simp add: pal_busy_def)
  have s2: "list_all (\<lambda>c. completes (Sendall ''abc'') c \<and> completion_err c = PAL_SOCKET_ERR_IN_PROGRESS)
        [Sent PAL_SOCKET_ERR_IN_PROGRESS 1, Sent PAL_SOCKET_ERR_IN_PROGRESS 2]"
    by simp
  have r1: "starts_in_progress pal_busy 1 (Recvfrom 16)"
    by (simp add: pal_busy_def)
  have r2: "list_all (\<lambda>c. completes (Recvfrom 16) c \<and> completion_err c = PAL_SOCKET_ERR_IN_PROGRESS)
        [Recved PAL_SOCKET_ERR_IN_PROGRESS [] 0 [], Recved PAL_SOCKET_ERR_IN_PROGRESS [] 0 []]"
    by simp
  from c1 c2 s1 s2 r1 r2
    in_progress_resuspends [OF c1 c2, of 5]
    in_progress_resuspends [OF s1 s2, of 5]
    in_progress_resuspends [OF r1 r2, of 5]
  show ?thesis by simp
qed

text \<open>The converse: a method other than \<open>accept\<close> suspends only when its request is in progress.\<close>

lemma suspends_only_in_progress:
  assumes "suspended (fst (lsocket_obj_meth pal udata call obj)) ctx k" and "call \<noteq> Accept"
  shows "\<exists>s. socket obj = Some s \<and> starts_in_progress pal s call"
proof (cases "socket obj")
  case None
  then have "obj = \<lparr>socket = None\<rparr>" by simp
  with assms(1) show ?thesis
    by (cases call)
      (simp_all add: lsocket_obj_get_def lsocket_obj_settimeout_def lsocket_obj_enablebroadcast_def
        lsocket_obj_bind_def lsocket_obj_listen_def lsocket_obj_accept_def lsocket_obj_connect_def
        lsocket_obj_send_def lsocket_obj_sendall_def lsocket_obj_sent_int_def lsocket_obj_sendto_def
        lsocket_obj_recv_def lsocket_obj_recvfrom_def lsocket_obj_readable_def
        lsocket_obj_destroy_def)
next
  case (Some s)
  then have get: "lsocket_obj_get obj = Inr s" by (simp add: lsocket_obj_get_def)
  have "starts_in_progress pal s call"
    using assms
    by (cases call)
      (auto simp: get suspended_def lsocket_obj_settimeout_def lsocket_obj_enablebroadcast_def
        lsocket_obj_bind_def lsocket_obj_listen_def lsocket_obj_connect_def
        lsocket_obj_send_def lsocket_obj_sendall_def lsocket_obj_sent_int_def lsocket_obj_sendto_def
        lsocket_obj_recv_def lsocket_obj_recvfrom_def lsocket_obj_readable_def
        lsocket_obj_destroy_def finshconnect_def finshsend_def finshrecv_def lua_index_def
        lua_return_def Let_def
        split: if_splits prod.splits outcome.splits)
  with Some show ?thesis by simp
qed

text \<open>
  \<open>accept\<close> is not among the six: its continuation function has no case for "in progress"
  and raises.
\<close>

lemma accept_in_progress_raises:
  "lsocket_accepted_cb pal PAL_SOCKET_ERR_IN_PROGRESS new_o addr port (Yield st ctx K_finshaccept) =
     Raise (Error (pal_socket_get_error_str pal PAL_SOCKET_ERR_IN_PROGRESS))"
  by (simp add: lsocket_accepted_cb_def lc_resumethread_def finshaccept_def lua_index_def
      nth_append in_progress_not_ok)








text \<open>
  C7, as the specification states it: a second \<open>destroy\<close> on the same socket succeeds
  with no effect. It does not: \<open>destroy\<close> goes through \<open>lsocket_obj_get\<close> like every other
  method, and raises on a destroyed socket.
\<close>

theorem destroy_twice_counterexample:
  "fst (lsocket_obj_destroy (fst (snd (lsocket_obj_destroy \<lparr>socket = Some 1\<rparr>)))) =
     Raise (Error ''attemp to use a destroyed socket'')
   \<and> fst (lsocket_obj_destroy (fst (snd (lsocket_obj_destroy \<lparr>socket = Some 1\<rparr>)))) \<noteq> Return []"
  by (simp add: lsocket_obj_destroy_def lsocket_obj_get_def)

lemma get_destroyed:
  "lsocket_obj_get \<lparr>socket = None\<rparr> = Inl (Error ''attemp to use a destroyed socket'')"
  by (simp add: lsocket_obj_get_def)

text \<open>
  C7, amended. Every method invoked on a destroyed socket, \<open>destroy\<close> included, raises the
  "destroyed socket" error, leaves the object as it is and makes no call of the platform
  layer. \<open>destroy\<close> on a live socket destroys the platform socket once and marks the object
  destroyed. Only the finalizer (\<open>__gc\<close>, \<open>__close\<close>) is idempotent: on a live socket it
  does what \<open>destroy\<close> does, on a destroyed one it succeeds with no effect.
\<close>

theorem destroyed_socket_methods:
  "lsocket_obj_meth pal udata call \<lparr>socket = None\<rparr> =
     (Raise (Error ''attemp to use a destroyed socket''), \<lparr>socket = None\<rparr>, [])
   \<and> lsocket_obj_destroy \<lparr>socket = Some s\<rparr> = (Return [], \<lparr>socket = None\<rparr>, [Call_destroy s])
   \<and> lsocket_obj_gc \<lparr>socket = Some s\<rparr> = (Return [], \<lparr>socket = None\<rparr>, [Call_destroy s])
   \<and> lsocket_obj_gc \<lparr>socket = None\<rparr> = (Return [], \<lparr>socket = None\<rparr>, [])"
proof -
  have "lsocket_obj_meth pal udata call \<lparr>socket = None\<rparr> =
     (Raise (Error ''attemp to use a destroyed socket''), \<lparr>socket = None\<rparr>, [])"
    by (cases call)
      (simp_all add: get_destroyed lsocket_obj_settimeout_def lsocket_obj_enablebroadcast_def
        lsocket_obj_bind_def lsocket_obj_listen_def lsocket_obj_accept_def lsocket_obj_connect_def
        lsocket_obj_send_def lsocket_obj_sendall_def lsocket_obj_sent_int_def lsocket_obj_sendto_def
        lsocket_obj_recv_def lsocket_obj_recvfrom_def lsocket_obj_readable_def
        lsocket_obj_destroy_def)
  moreover have "lsocket_obj_destroy \<lparr>socket = Some s\<rparr> = (Return [], \<lparr>socket = None\<rparr>, [Call_destroy s])"
    by (simp add: lsocket_obj_destroy_def lsocket_obj_get_def)
  moreover have "lsocket_obj_gc \<lparr>socket = Some s\<rparr> = (Return [], \<lparr>socket = None\<rparr>, [Call_destroy s])"
    by (simp add: lsocket_obj_gc_def)
  moreover have "lsocket_obj_gc \<lparr>socket = None\<rparr> = (Return [], \<lparr>socket = None\<rparr>, [])"
    by (simp add: lsocket_obj_gc_def)
  ultimately show ?thesis by simp
qed

section \<open>DNS resolution\<close>

text \<open>
  C9 at the failing input: \<open>resolve("example.com", "IPV4")\<close>, the request starts, and the
  completion callback reports that nothing was resolved. The continuation function runs
  with status \<open>LUA_YIELD\<close>, which is 1, and finds a string on top of the stack: the
  family argument of the call. No error is raised, and the caller gets "IPV4" as address.
\<close>

theorem resolve_nothing_returns_argument:
  "ldns_response_cb pal None (ldns_resolve (\<lambda>hostname af. True) [LString ''example.com'', LString ''IPV4''])
     = Return [LString ''IPV4'']"
  by (simp add: ldns_resolve_def luaL_checkstring_def luaL_checkoption_def lua_tolstring_def
      ldns_family_strs_def ldns_response_cb_def lc_resumethread_def finshresolve_def
      lua_index_def lua_return_def LUA_YIELD_def)

text \<open>The two other parts of C9 hold: a request that does not start raises at once \<dots>\<close>

lemma resolve_start_failure:
  assumes "ldns_resolve (\<lambda>hostname af. False) st = r"
  shows "\<exists>e. r = Raise e"
  using assms
  by (auto simp: ldns_resolve_def split: sum.splits prod.splits)

text \<open>\<dots> and a resolved address is what the suspended caller returns.\<close>

lemma resolve_address:
  assumes "ldns_resolve start st = Yield st' ctx k"
  shows "ldns_response_cb pal (Some a) (ldns_resolve start st) = Return [LString a]"
proof -
  from assms have "k = K_finshresolve"
    by (auto simp: ldns_resolve_def split: sum.splits prod.splits if_splits)
  with assms show ?thesis
    by (simp add: ldns_response_cb_def lc_resumethread_def finshresolve_def lua_return_def
        LUA_YIELD_def)
qed

section \<open>Message queue\<close>

text \<open>
  C3, as the specification states it: a send on a queue with waiting receivers resumes
  exactly the oldest one, and every other waiter remains waiting. It does not: with the
  coroutines 1 and 2 waiting, one send resumes both with the sent value, and no waiter
  is left.
\<close>

theorem send_oldest_waiter_counterexample:
  "snd (snd (lmq_obj_send run_to_end [LInteger 42] lmq_two_waiting)) =
     [(1, [LInteger 42]), (2, [LInteger 42])]
   \<and> wait (fst (snd (lmq_obj_send run_to_end [LInteger 42] lmq_two_waiting))) = None
   \<and> snd (snd (lmq_obj_send run_to_end [LInteger 42] lmq_two_waiting)) \<noteq> [(1, [LInteger 42])]"
  by (simp add: lmq_obj_send_def lmq_two_waiting_def run_to_end_def)

lemma resume_waiting_run_to_end [simp]: "resume_waiting run_to_end waiting args q = q"
  by (induction waiting arbitrary: q) (simp_all add: run_to_end_def)

text \<open>
  C3, amended. A send on a queue with waiting receivers succeeds, takes the whole table of
  waiters out of the queue and resumes every one of them, oldest first, each with the sent
  values; the queue after the send is what these coroutines leave, started on the queue
  without waiters. The send itself buffers nothing: when the resumed coroutines do not use
  the queue, its buffer is as before, and no waiter is left.
\<close>

theorem send_resumes_all_waiting:
  assumes "wait q = Some waiting"
  shows "fst (lmq_obj_send run args q) = Return []
    \<and> snd (snd (lmq_obj_send run args q)) = map (\<lambda>co. (co, args)) waiting
    \<and> fst (snd (lmq_obj_send run args q)) = resume_waiting run waiting args (q\<lparr>wait := None\<rparr>)
    \<and> fst (snd (lmq_obj_send run_to_end args q)) = q\<lparr>wait := None\<rparr>"
  using assms by (simp add: lmq_obj_send_def)

theorem send_resumes_all_waiting_witness:
  "wait lmq_two_waiting = Some [1, 2]
   \<and> fst (lmq_obj_send run_to_end [LInteger 42] lmq_two_waiting) = Return []
   \<and> snd (snd (lmq_obj_send run_to_end [LInteger 42] lmq_two_waiting)) =
       [(1, [LInteger 42]), (2, [LInteger 42])]
   \<and> fst (snd (lmq_obj_send run_to_end [LInteger 42] lmq_two_waiting)) = lmq_two_waiting\<lparr>wait := None\<rparr>"
proof -
  have w: "wait lmq_two_waiting = Some [1, 2]"
    by (simp add: lmq_two_waiting_def)
  from w send_resumes_all_waiting [OF w, of run_to_end "[LInteger 42]"] show ?thesis
    by (simp add: run_to_end_def)
qed

text \<open>The binary search of \<open>luaL_len\<close> ends at a border of the table.\<close>

lemma binsearch_border:
  assumes "i < j" and "j \<le> length t" and "i = 0 \<or> t ! (i - 1) \<noteq> LNil" and "t ! (j - 1) = LNil"
  shows "i \<le> binsearch t i j \<and> binsearch t i j < j
     \<and> (binsearch t i j = 0 \<or> t ! (binsearch t i j - 1) \<noteq> LNil)
     \<and> t ! binsearch t i j = LNil"
  using assms
proof (induction t i j rule: binsearch.induct)
  case (1 array i j)
  show ?case
  proof (cases "j - i > 1")
    case False
    with 1(3) have j: "j = Suc i" by simp
    have "binsearch array i j = i"
      using False by (subst binsearch.simps) simp
    with 1(5,6) j show ?thesis by simp
  next
    case True
    define m where "m = (i + j) div 2"
    from True have im: "i < m" and mj: "m < j" by (simp_all add: m_def)
    show ?thesis
    proof (cases "array ! (m - 1) = LNil")
      case nil: True
      have eq: "binsearch array i j = binsearch array i m"
        using True nil by (subst binsearch.simps) (simp add: m_def Let_def)
      from 1(1) [OF True m_def nil im _ 1(5) nil] mj 1(4)
      show ?thesis unfolding eq by simp
    next
      case val: False
      have eq: "binsearch array i j = binsearch array m j"
        using True val by (subst binsearch.simps) (simp add: m_def Let_def)
      from 1(2) [OF True m_def val mj 1(4) _ 1(6)] val im
      show ?thesis unfolding eq by auto
    qed
  qed
qed

text \<open>The length is a border of the table, and the number of values if the last is not nil.\<close>

lemma luaL_len_border:
  "luaL_len t \<le> length t
   \<and> (luaL_len t = 0 \<or> t ! (luaL_len t - 1) \<noteq> LNil)
   \<and> (luaL_len t = length t \<or> t ! luaL_len t = LNil)"
proof (cases "length t > 0 \<and> t ! (length t - 1) = LNil")
  case False
  then show ?thesis by (auto simp: luaL_len_def Let_def)
next
  case True
  show ?thesis
  proof (cases "length t \<ge> 2 \<and> t ! (length t - 2) \<noteq> LNil")
    case short: True
    with True have "luaL_len t = length t - 1" by (simp add: luaL_len_def Let_def)
    with True short show ?thesis
      by (simp add: numeral_2_eq_2 Suc_diff_Suc)
  next
    case False
    with True have eq: "luaL_len t = binsearch t 0 (length t)" by (auto simp: luaL_len_def Let_def)
    from binsearch_border [of 0 "length t" t] True
    show ?thesis unfolding eq by simp
  qed
qed

lemma luaL_len_no_nil: "t = [] \<or> last t \<noteq> LNil \<Longrightarrow> luaL_len t = length t"
  by (auto simp: luaL_len_def Let_def last_conv_nth)

text \<open>
  C4 at the failing input: a queue of capacity 1 takes a message and gives it back, so that
  its buffer is empty again and no receiver waits. It then accepts two sends; the claim says
  that the second one fails, the queue being full. After it \<open>first\<close> and \<open>last\<close> are
  equal: the queue counts as empty, and both messages are out of reach.
\<close>

theorem full_queue_accepts_send:
  "lmq_create 1 = Inr lmq_fresh1
   \<and> fst (lmq_calls run [Q_send [LInteger 1], Q_recv 7, Q_send [LInteger 2], Q_send [LInteger 3]]
           lmq_fresh1) =
       [Return [], Return [LInteger 1], Return [], Return []]
   \<and> qfirst (qobj (snd (lmq_calls run [Q_send [LInteger 1], Q_recv 7] lmq_fresh1))) =
       qlast (qobj (snd (lmq_calls run [Q_send [LInteger 1], Q_recv 7] lmq_fresh1)))
   \<and> wait (snd (lmq_calls run [Q_send [LInteger 1], Q_recv 7] lmq_fresh1)) = None
   \<and> qfirst (qobj (snd (lmq_calls run
         [Q_send [LInteger 1], Q_recv 7, Q_send [LInteger 2], Q_send [LInteger 3]] lmq_fresh1))) =
       qlast (qobj (snd (lmq_calls run
         [Q_send [LInteger 1], Q_recv 7, Q_send [LInteger 2], Q_send [LInteger 3]] lmq_fresh1)))"
  by (simp add: lmq_create_def lmq_fresh1_def lmq_obj_send_def lmq_obj_recv_def lmq_size_def
      luaL_len_def Let_def)

text \<open>From the fresh queue of capacity 1 the claim holds: one send, then the queue is full.\<close>

lemma fresh_queue_fills:
  "fst (lmq_calls run [Q_send [LInteger 1], Q_send [LInteger 2], Q_recv 7, Q_send [LInteger 3]]
          lmq_fresh1) =
     [Return [], Raise (Error ''the message queue is full''), Return [LInteger 1], Return []]"
  by (simp add: lmq_fresh1_def lmq_obj_send_def lmq_obj_recv_def lmq_size_def luaL_len_def Let_def)

section \<open>Loopback channel\<close>

lemma frames_of_incomplete: "incomplete_frame psz bs \<Longrightarrow> frames_of psz bs = ([], bs)"
  by (subst frames_of.simps) (auto simp: incomplete_frame_def)

lemma frames_of_rest_incomplete: "frames_of psz bs = (fs, rest) \<Longrightarrow> incomplete_frame psz rest"
proof (induction psz bs arbitrary: fs rest rule: frames_of.induct)
  case (1 psz bs)
  show ?case
  proof (cases "length bs < psz + 1 \<or> length bs < psz + 1 + unat (bs ! psz)")
    case True
    then have "frames_of psz bs = ([], bs)"
      by (subst frames_of.simps) auto
    with "1.prems" True show ?thesis by (auto simp: incomplete_frame_def)
  next
    case False
    then have "frames_of psz bs = (case frames_of psz (drop (psz + 1 + unat (bs ! psz)) bs) of
              (fs, rest) \<Rightarrow> ((take psz bs, take (unat (bs ! psz)) (drop (psz + 1) bs)) # fs, rest))"
      by (subst frames_of.simps) auto
    with "1.prems" obtain fs' where "frames_of psz (drop (psz + 1 + unat (bs ! psz)) bs) = (fs', rest)"
      by (auto split: prod.splits)
    with False "1.IH" show ?thesis by auto
  qed
qed

lemma byte_le_255: "unat (w :: byte) \<le> 255"
  using unsigned_less [of w, where 'a=nat] by simp

lemma incomplete_short: "incomplete_frame psz bs \<Longrightarrow> length bs < sizeof_loopbackBytes psz"
  using byte_le_255 [of "bs ! psz"] by (auto simp: incomplete_frame_def sizeof_loopbackBytes_def)

text \<open>Bytes that arrive later do not change the frames that are already complete.\<close>

lemma frames_of_append:
  "frames_of psz (bs @ cs) =
     (case frames_of psz bs of (f1, r1) \<Rightarrow>
        (case frames_of psz (r1 @ cs) of (f2, r2) \<Rightarrow> (f1 @ f2, r2)))"
proof (induction psz bs rule: frames_of.induct)
  case (1 psz bs)
  show ?case
  proof (cases "length bs < psz + 1 \<or> length bs < psz + 1 + unat (bs ! psz)")
    case True
    then have "frames_of psz bs = ([], bs)" by (subst frames_of.simps) auto
    then show ?thesis by (simp split: prod.splits)
  next
    case False
    let ?k = "psz + 1 + unat (bs ! psz)"
    from False have len: "psz < length bs" "?k \<le> length bs" by auto
    then have nth: "(bs @ cs) ! psz = bs ! psz" by (simp add: nth_append)
    have "frames_of psz (bs @ cs) =
      (case frames_of psz (drop ?k bs @ cs) of
              (fs, rest) \<Rightarrow> ((take psz bs, take (unat (bs ! psz)) (drop (psz + 1) bs)) # fs, rest))"
      using len nth by (subst frames_of.simps) (simp)
    also have "frames_of psz (drop ?k bs @ cs) = (case frames_of psz (drop ?k bs) of (f1, r1) \<Rightarrow>
        (case frames_of psz (r1 @ cs) of (f2, r2) \<Rightarrow> (f1 @ f2, r2)))"
      using "1.IH" False by simp
    finally show ?thesis
      using False by (subst (2) frames_of.simps) (simp split: prod.splits)
  qed
qed

text \<open>A frame as \<open>HAPPlatformRunLoopScheduleCallback\<close> writes it is the first frame read.\<close>

lemma schedule_writes_frame:
  assumes "length ctx \<le> 255" and "length ctx + 1 + length cb \<le> PIPE_BUF"
  shows "HAPPlatformRunLoopScheduleCallback PIPE_BUF True cb (Some ctx) (length ctx) =
           Inr (kHAPError_None, frame_bytes cb ctx)"
  using assms by (simp add: HAPPlatformRunLoopScheduleCallback_def frame_bytes_def)

lemma frames_of_frame:
  assumes "length cb = psz" and "length ctx \<le> 255"
  shows "frames_of psz (frame_bytes cb ctx @ bs) =
           (case frames_of psz bs of (fs, rest) \<Rightarrow> ((cb, ctx) # fs, rest))"
proof -
  have sz: "unat (of_nat (length ctx) :: byte) = length ctx"
    using assms(2) by (simp add: unat_of_nat)
  have nth: "(frame_bytes cb ctx @ bs) ! psz = of_nat (length ctx)"
    using assms(1) by (simp add: frame_bytes_def nth_append)
  have len: "length (frame_bytes cb ctx) = psz + 1 + length ctx"
    using assms(1) by (simp add: frame_bytes_def)
  show ?thesis
    using assms(1) by (subst frames_of.simps) (simp add: nth sz len, simp add: frame_bytes_def)
qed

lemma frames_of_frames:
  assumes "list_all (\<lambda>f. length (fst f) = psz \<and> length (snd f) \<le> 255) frames"
    and "incomplete_frame psz rest"
  shows "frames_of psz (concat (map (\<lambda>f. frame_bytes (fst f) (snd f)) frames) @ rest) = (frames, rest)"
  using assms
proof (induction frames)
  case Nil
  then show ?case by (simp add: frames_of_incomplete)
next
  case (Cons f frames)
  then show ?case
    by (cases f) (simp add: frames_of_frame)
qed

lemma copy_within0_length:
  "src + n \<le> length bytes \<Longrightarrow> length (copy_within bytes 0 src n) = length bytes"
  by (simp add: copy_within_def)

lemma copy_within0_take:
  "src + n \<le> length bytes \<Longrightarrow> k \<le> n \<Longrightarrow> take k (copy_within bytes 0 src n) = take k (drop src bytes)"
  by (simp add: copy_within_def)

lemma dispatch_frames_refines:
  assumes "num \<le> length bytes"
  shows "case dispatch_frames psz (bytes, num) of ((bytes', num'), ds) \<Rightarrow>
           length bytes' = length bytes \<and> num' \<le> length bytes' \<and>
           (case frames_of psz (take num bytes) of (fs, rest) \<Rightarrow>
              ds = map dispatch_of fs \<and> take num' bytes' = rest)"
  using assms
proof (induction psz "(bytes, num)" arbitrary: bytes num rule: dispatch_frames.induct)
  case (1 psz bytes num)
  let ?cs = "unat (bytes ! psz)"
  show ?case
  proof (cases "num < psz + 1 \<or> num < psz + 1 + ?cs")
    case True
    then have d: "dispatch_frames psz (bytes, num) = ((bytes, num), [])"
      by (subst dispatch_frames.simps) (auto simp: Let_def)
    from True "1.prems" have "incomplete_frame psz (take num bytes)"
      by (cases "psz < num") (auto simp: incomplete_frame_def)
    then have "frames_of psz (take num bytes) = ([], take num bytes)"
      by (rule frames_of_incomplete)
    with d "1.prems" show ?thesis by simp
  next
    case False
    let ?b1 = "copy_within bytes 0 (psz + 1) (num - (psz + 1))"
    let ?n1 = "num - (psz + 1)"
    let ?b2 = "copy_within ?b1 0 ?cs (?n1 - ?cs)"
    let ?n2 = "?n1 - ?cs"
    let ?d = "(take psz bytes, if ?cs \<noteq> 0 then Some (take ?cs ?b1) else None, ?cs)"
    from False "1.prems" have bounds: "psz + 1 + ?cs \<le> num" "num \<le> length bytes" by auto
    have l1: "length ?b1 = length bytes"
      using bounds by (simp add: copy_within0_length)
    have l2: "length ?b2 = length bytes"
      using bounds l1 by (simp add: copy_within0_length)
    have t1: "take ?n1 ?b1 = drop (psz + 1) (take num bytes)"
      using bounds by (simp add: copy_within0_take drop_take)
    have t2: "take ?n2 ?b2 = drop (psz + 1 + ?cs) (take num bytes)"
    proof -
      have "take ?n2 ?b2 = take ?n2 (drop ?cs ?b1)"
        using bounds l1 by (simp add: copy_within0_take)
      also have "\<dots> = drop ?cs (take ?n1 ?b1)"
        using bounds by (simp add: drop_take)
      also have "\<dots> = drop (psz + 1 + ?cs) (take num bytes)"
        using t1 by (simp add: ac_simps)
      finally show ?thesis .
    qed
    have ctx: "take ?cs ?b1 = take ?cs (drop (psz + 1) (take num bytes))"
    proof -
      have le: "?cs \<le> ?n1" using bounds by arith
      have "take ?cs ?b1 = take ?cs (drop (psz + 1) bytes)"
        using bounds le by (simp add: copy_within0_take)
      also have "\<dots> = take ?cs (take ?n1 (drop (psz + 1) bytes))"
        using le by (simp add: min_absorb1)
      also have "\<dots> = take ?cs (drop (psz + 1) (take num bytes))"
        by (simp add: drop_take)
      finally show ?thesis .
    qed
    have c1: "\<not> num < psz + 1" and c2: "\<not> num < psz + 1 + ?cs"
      using False by auto
    have n2: "?n2 \<le> length ?b2"
      using bounds l2 by arith
    note ih = "1.hyps" [OF c1 refl c2 refl refl refl refl refl refl n2]
    have d: "dispatch_frames psz (bytes, num) =
        (case dispatch_frames psz (?b2, ?n2) of (b, ds) \<Rightarrow> (b, ?d # ds))"
      using False by (subst dispatch_frames.simps) (simp add: Let_def)
    have nth: "take num bytes ! psz = bytes ! psz"
      using bounds by simp
    have f: "frames_of psz (take num bytes) =
        (case frames_of psz (drop (psz + 1 + ?cs) (take num bytes)) of
              (fs, rest) \<Rightarrow> ((take psz bytes, take ?cs (drop (psz + 1) (take num bytes))) # fs, rest))"
      using bounds by (subst frames_of.simps) (simp add: nth min_def)
    have lenX: "length (take ?cs (drop (psz + 1) (take num bytes))) = ?cs"
      using bounds by simp
    have ne: "(take ?cs (drop (psz + 1) (take num bytes)) \<noteq> []) = (?cs \<noteq> 0)"
      using lenX by (metis length_0_conv)
    have dof: "dispatch_of (take psz bytes, take ?cs (drop (psz + 1) (take num bytes))) = ?d"
      by (simp only: dispatch_of_def fst_conv snd_conv ne lenX ctx)
    obtain b' n' ds where r: "dispatch_frames psz (?b2, ?n2) = ((b', n'), ds)"
      by (metis prod.exhaust)
    obtain fs rest where fr: "frames_of psz (take ?n2 ?b2) = (fs, rest)"
      by (metis prod.exhaust)
    from ih [unfolded r fr prod.case] have props: "length b' = length ?b2" "n' \<le> length b'" "ds = map dispatch_of fs"
        "take n' b' = rest"
      by blast+
    have D: "dispatch_frames psz (bytes, num) = ((b', n'), ?d # ds)"
      by (simp only: d r prod.case)
    have F: "frames_of psz (take num bytes) =
        ((take psz bytes, take ?cs (drop (psz + 1) (take num bytes))) # fs, rest)"
      using fr by (simp only: f t2 prod.case)
    show ?thesis
      unfolding D F prod.case list.map dof
      using props l2 by simp
  qed
qed

lemma handler_read:
  assumes "buffered psz s buf" and "incomplete_frame psz buf"
    and "bs \<noteq> []" and "length buf + length bs \<le> sizeof_loopbackBytes psz"
  shows "\<exists>s'. HandleLoopbackFileHandleCallback psz (Recv_bytes bs) s =
            Inr (s', map dispatch_of (fst (frames_of psz (buf @ bs))))
          \<and> buffered psz s' (snd (frames_of psz (buf @ bs)))"
proof -
  let ?num = "numLoopbackBytes s"
  let ?arr = "take ?num (loopbackBytes s) @ bs @ drop (?num + length bs) (loopbackBytes s)"
  from assms(1) have len: "length (loopbackBytes s) = sizeof_loopbackBytes psz"
    and num: "?num = length buf" and buf: "take ?num (loopbackBytes s) = buf"
    unfolding buffered_def by blast+
  from assms(2) have lt: "?num < sizeof_loopbackBytes psz"
    using incomplete_short num by simp
  have alen: "length ?arr = sizeof_loopbackBytes psz"
    using len num assms(4) by simp
  have atake: "take (?num + length bs) ?arr = buf @ bs"
    using len num assms(4) buf by simp
  obtain b' n' ds where r: "dispatch_frames psz (?arr, ?num + length bs) = ((b', n'), ds)"
    by (metis prod.exhaust)
  obtain fs rest where fr: "frames_of psz (buf @ bs) = (fs, rest)"
    by (metis prod.exhaust)
  have "?num + length bs \<le> length ?arr"
    using alen num assms(4) by simp
  from dispatch_frames_refines [OF this, of psz, unfolded r atake fr prod.case]
  have props: "length b' = length ?arr" "n' \<le> length b'" "ds = map dispatch_of fs" "take n' b' = rest"
    by blast+
  have h: "HandleLoopbackFileHandleCallback psz (Recv_bytes bs) s =
      Inr (s\<lparr>loopbackBytes := b', numLoopbackBytes := n'\<rparr>, ds)"
    using lt assms(3,4) num r by (simp add: HandleLoopbackFileHandleCallback_def Let_def)
  have "n' = length rest"
    using props(2,4) by (metis length_take min_absorb2)
  then have "buffered psz (s\<lparr>loopbackBytes := b', numLoopbackBytes := n'\<rparr>) rest"
    using props alen by (simp add: buffered_def)
  with h props(3) fr show ?thesis by simp
qed

lemma loopback_reads_frames:
  assumes "buffered psz s buf" and "incomplete_frame psz buf" and "reads_fit psz buf reads"
  shows "\<exists>s'. loopback_reads psz reads s =
            Inr (s', map dispatch_of (fst (frames_of psz (buf @ concat reads))))
          \<and> buffered psz s' (snd (frames_of psz (buf @ concat reads)))"
  using assms
proof (induction reads arbitrary: s buf)
  case Nil
  then show ?case by (simp add: frames_of_incomplete)
next
  case (Cons bs reads)
  obtain f1 r1 where fr1: "frames_of psz (buf @ bs) = (f1, r1)"
    by (metis prod.exhaust)
  from Cons.prems have fit: "bs \<noteq> []" "length buf + length bs \<le> sizeof_loopbackBytes psz"
    "reads_fit psz r1 reads"
    by (simp_all add: fr1)
  from handler_read [OF Cons.prems(1,2) fit(1,2)] fr1 obtain s1 where
    h: "HandleLoopbackFileHandleCallback psz (Recv_bytes bs) s = Inr (s1, map dispatch_of f1)"
    and b1: "buffered psz s1 r1"
    by auto
  have inc1: "incomplete_frame psz r1"
    using fr1 by (rule frames_of_rest_incomplete)
  from Cons.IH [OF b1 inc1 fit(3)] obtain s' where
    l: "loopback_reads psz reads s1 = Inr (s', map dispatch_of (fst (frames_of psz (r1 @ concat reads))))"
    and b': "buffered psz s' (snd (frames_of psz (r1 @ concat reads)))"
    by auto
  have "frames_of psz (buf @ concat (bs # reads)) =
      (f1 @ fst (frames_of psz (r1 @ concat reads)), snd (frames_of psz (r1 @ concat reads)))"
    using frames_of_append [of psz "buf @ bs" "concat reads"] fr1
    by (simp add: split_beta)
  with h l b' show ?case by simp
qed

text \<open>
  C5. The bytes of the frames \<open>frames\<close>, each a callback pointer of \<open>psz\<close> bytes and a
  context of at most 255 bytes, followed by the bytes \<open>rest\<close> of an incomplete frame, reach
  the receiver callback in any number of reads, cut anywhere, each read as \<open>recv\<close> can
  deliver it (not empty, and within the free space of the buffer). Starting on the empty
  buffer, the reads end without a fault, the dispatches are those of the frames, one
  each and in order, each with its callback pointer, its context bytes (\<open>NULL\<close> for an
  empty context) and its context size, and the buffer retains exactly \<open>rest\<close>.
\<close>

theorem loopback_frames_dispatched:
  assumes "length (loopbackBytes s) = sizeof_loopbackBytes psz" and "numLoopbackBytes s = 0"
    and "list_all (\<lambda>f. length (fst f) = psz \<and> length (snd f) \<le> 255) frames"
    and "incomplete_frame psz rest"
    and "concat reads = concat (map (\<lambda>f. frame_bytes (fst f) (snd f)) frames) @ rest"
    and "reads_fit psz [] reads"
  shows "\<exists>s'. loopback_reads psz reads s = Inr (s', map dispatch_of frames)
           \<and> numLoopbackBytes s' = length rest
           \<and> take (numLoopbackBytes s') (loopbackBytes s') = rest"
proof -
  have b: "buffered psz s []"
    using assms(1,2) by (simp add: buffered_def)
  have i: "incomplete_frame psz []"
    by (simp add: incomplete_frame_def)
  have f: "frames_of psz ([] @ concat reads) = (frames, rest)"
    using frames_of_frames [OF assms(3,4)] assms(5) by simp
  from loopback_reads_frames [OF b i assms(6)] f show ?thesis
    by (auto simp: buffered_def)
qed

theorem loopback_frames_dispatched_witness:
  "length (loopbackBytes (runLoop_init 4)) = sizeof_loopbackBytes 4
   \<and> numLoopbackBytes (runLoop_init 4) = 0
   \<and> list_all (\<lambda>f. length (fst f) = 4 \<and> length (snd f) \<le> 255)
        [([1, 2, 3, 4], [10, 20 :: byte]), ([5, 6, 7, 8 :: byte], [])]
   \<and> incomplete_frame 4 [9, 9]
   \<and> concat [[1, 2, 3], [4, 2, 10, 20, 5, 6, 7, 8, 0, 9], [9]] =
        concat (map (\<lambda>f. frame_bytes (fst f) (snd f)) [([1, 2, 3, 4], [10, 20]), ([5, 6, 7, 8], [])])
          @ [9, 9]
   \<and> reads_fit 4 [] [[1, 2, 3], [4, 2, 10, 20, 5, 6, 7, 8, 0, 9], [9]]
   \<and> (\<exists>s'. loopback_reads 4 [[1, 2, 3], [4, 2, 10, 20, 5, 6, 7, 8, 0, 9], [9]] (runLoop_init 4) =
          Inr (s', [([1, 2, 3, 4], Some [10, 20], 2), ([5, 6, 7, 8], None, 0)])
        \<and> numLoopbackBytes s' = 2
        \<and> take (numLoopbackBytes s') (loopbackBytes s') = [9, 9])"
proof -
  have h1: "length (loopbackBytes (runLoop_init 4)) = sizeof_loopbackBytes 4"
    by (simp add: runLoop_init_def)
  have h2: "numLoopbackBytes (runLoop_init 4) = 0"
    by (simp add: runLoop_init_def)
  have h3: "list_all (\<lambda>f. length (fst f) = 4 \<and> length (snd f) \<le> 255)
        [([1, 2, 3, 4], [10, 20 :: byte]), ([5, 6, 7, 8 :: byte], [])]"
    by simp
  have h4: "incomplete_frame 4 [9, 9]"
    by (simp add: incomplete_frame_def)
  have h5: "concat [[1, 2, 3], [4, 2, 10, 20, 5, 6, 7, 8, 0, 9], [9 :: byte]] =
        concat (map (\<lambda>f. frame_bytes (fst f) (snd f)) [([1, 2, 3, 4], [10, 20]), ([5, 6, 7, 8], [])])
          @ [9, 9]"
    by (simp add: frame_bytes_def)
  have h6: "reads_fit 4 [] [[1, 2, 3], [4, 2, 10, 20, 5, 6, 7, 8, 0, 9], [9]]"
    by (simp add: frames_of.simps sizeof_loopbackBytes_def)
  have m: "map dispatch_of [([1, 2, 3, 4], [10, 20 :: byte]), ([5, 6, 7, 8 :: byte], [])] =
      [([1, 2, 3, 4], Some [10, 20], 2), ([5, 6, 7, 8], None, 0)]"
    by (simp add: dispatch_of_def)
  have l: "length [9, 9 :: byte] = 2"
    by simp
  note c = loopback_frames_dispatched [OF h1 h2 h3 h4 h5 h6, unfolded m l]
  from h1 h2 h3 h4 h5 h6 c show ?thesis
    by (intro conjI)
qed

section \<open>The list of file handles\<close>

lemma links_append: "links nx pv (as @ x # bs) = (links nx pv (as @ [x]) \<and> links nx pv (x # bs))"
proof (induction as rule: links.induct[where ?a0.0=nx and ?a1.0=pv])
  case (1 nx pv)
  then show ?case by simp
next
  case (2 nx pv y)
  then show ?case by (cases bs) auto
next
  case (3 nx pv y z zs)
  then show ?case by auto
qed

lemma links_cong:
  assumes "\<And>a. a \<in> set (butlast l) \<Longrightarrow> nx' a = nx a" and "\<And>a. a \<in> set (tl l) \<Longrightarrow> pv' a = pv a"
  shows "links nx' pv' l = links nx pv l"
  using assms
proof (induction l rule: links.induct[where ?a0.0=nx and ?a1.0=pv])
  case (3 nx pv x y zs)
  then show ?case by auto
qed simp_all

lemma links_snoc:
  assumes "distinct (s # xs)" and "a \<notin> set (s # xs)" and "links nx pv (s # xs @ [s])"
  shows "links (nx(a := Some s, last (s # xs) := Some a)) (pv(a := Some (last (s # xs)), s := Some a))
           (s # xs @ [a, s])"
proof -
  let ?p = "last (s # xs)"
  let ?nx = "nx(a := Some s, ?p := Some a)" and ?pv = "pv(a := Some ?p, s := Some a)"
  have eq: "s # xs @ [a, s] = butlast (s # xs) @ ?p # [a, s]"
    by (metis append_butlast_last_id append_Cons append_assoc list.distinct(1) append_Nil)
  have old: "links nx pv (butlast (s # xs) @ [?p])"
    using assms(3) links_append [of nx pv "butlast (s # xs)" ?p "[s]"]
    by (metis append_butlast_last_id append_Cons append_assoc list.distinct(1) append_Nil)
  have "links ?nx ?pv (butlast (s # xs) @ [?p]) = links nx pv (butlast (s # xs) @ [?p])"
  proof (rule links_cong)
    fix b assume "b \<in> set (butlast (butlast (s # xs) @ [?p]))"
    then have "b \<in> set (butlast (s # xs))" by simp
    then have "b \<noteq> ?p" "b \<noteq> a"
      using assms(1,2) by (metis distinct_butlast append_butlast_last_id distinct_append
          list.distinct(1) disjoint_iff list.set_intros(1) in_set_butlastD)+
    then show "?nx b = nx b" by simp
  next
    fix b assume "b \<in> set (tl (butlast (s # xs) @ [?p]))"
    then have "b \<in> set xs" by (metis append_butlast_last_id list.distinct(1) list.sel(3))
    then have "b \<noteq> s" "b \<noteq> a" using assms(1,2) by auto
    then show "?pv b = pv b" by simp
  qed
  with old have 1: "links ?nx ?pv (butlast (s # xs) @ [?p])" by simp
  have "a \<noteq> ?p" "a \<noteq> s" using assms(2) by (metis last_in_set list.distinct(1), simp)
  then have 2: "links ?nx ?pv [?p, a, s]" by simp
  from 1 2 show ?thesis
    unfolding eq using links_append [of ?nx ?pv "butlast (s # xs)" ?p "[a, s]"] by simp
qed

lemma links_mid: "links nx pv (as @ x # y # bs) \<Longrightarrow> nx x = Some y \<and> pv y = Some x"
  using links_append [of nx pv as x "y # bs"] by simp

lemma links_remove:
  assumes "distinct (s # as @ h # bs)" and "links nx pv (s # as @ h # bs @ [s])"
  shows "links (nx(last (s # as) := Some (hd (bs @ [s])), h := None))
               (pv(hd (bs @ [s]) := Some (last (s # as)), h := None))
               (s # as @ bs @ [s])"
proof -
  define p where "p = last (s # as)"
  define n where "n = hd (bs @ [s])"
  define A where "A = butlast (s # as)"
  define N where "N = tl (bs @ [s])"
  let ?nx = "nx(p := Some n, h := None)" and ?pv = "pv(n := Some p, h := None)"
  have sa: "s # as = A @ [p]" unfolding A_def p_def by simp
  have bn: "bs @ [s] = n # N" unfolding n_def N_def by simp
  have ring: "s # as @ h # bs @ [s] = A @ p # h # n # N"
    using sa bn by (metis append_Cons append_assoc append_Nil)
  have ring': "s # as @ bs @ [s] = A @ p # n # N"
    using sa bn by (metis append_Cons append_assoc append_Nil)
  from assms(2) have l1: "links nx pv (A @ [p])" and l2: "links nx pv (n # N)"
    unfolding ring
    using links_append [of nx pv A p "h # n # N"] by simp_all
  have dA: "distinct (A @ [p])" "h \<notin> set (A @ [p])" "set (A @ [p]) \<inter> set bs = {}"
    using assms(1) unfolding sa [symmetric] by auto
  have dN: "distinct (n # N)" "h \<notin> set (n # N)"
    using assms(1) unfolding bn [symmetric] by auto
  have as_bs: "set as \<inter> set (bs @ [s]) = {}"
    using assms(1) by auto
  have ph: "p \<noteq> h" using dA(2) by auto
  have nh: "n \<noteq> h" using dN(2) by auto
  have "links ?nx ?pv (A @ [p]) = links nx pv (A @ [p])"
  proof (rule links_cong)
    fix b assume "b \<in> set (butlast (A @ [p]))"
    then have b: "b \<in> set A" by simp
    with dA have "b \<noteq> p" "b \<noteq> h" by auto
    then show "?nx b = nx b" by simp
  next
    fix b assume "b \<in> set (tl (A @ [p]))"
    then have b: "b \<in> set as" using sa by (metis list.sel(3))
    with assms(1) have "b \<noteq> h" by auto
    moreover have "n \<in> set (bs @ [s])" unfolding bn by simp
    with b as_bs have "b \<noteq> n" by auto
    ultimately show "?pv b = pv b" by simp
  qed
  with l1 have 1: "links ?nx ?pv (A @ [p])" by simp
  have "links ?nx ?pv (n # N) = links nx pv (n # N)"
  proof (rule links_cong)
    fix b assume "b \<in> set (butlast (n # N))"
    then have b: "b \<in> set bs" using bn by (metis butlast_snoc)
    with assms(1) have "b \<noteq> h" by auto
    moreover from b dA(3) have "b \<noteq> p" by auto
    ultimately show "?nx b = nx b" by simp
  next
    fix b assume "b \<in> set (tl (n # N))"
    then have b: "b \<in> set N" by simp
    with dN have "b \<noteq> n" "b \<noteq> h" by auto
    then show "?pv b = pv b" by simp
  qed
  with l2 have 2: "links ?nx ?pv (n # N)" by simp
  from ph nh have 3: "?nx p = Some n" "?pv n = Some p" by simp_all
  from 1 2 3 have "links ?nx ?pv (s # as @ bs @ [s])"
    unfolding ring' using links_append [of ?nx ?pv A p "n # N"] by simp
  then show ?thesis unfolding p_def n_def .
qed

lemma list_sentinel_prev:
  assumes "file_handle_list s xs"
  shows "prv (mem s) (fileHandles s) = Some (last (fileHandles s # xs))"
    and "nxt (mem s) (last (fileHandles s # xs)) = Some (fileHandles s)"
proof -
  have "fileHandles s # xs @ [fileHandles s] =
      butlast (fileHandles s # xs) @ last (fileHandles s # xs) # fileHandles s # []"
    by (metis append_butlast_last_id append_Cons append_assoc list.distinct(1) append_Nil)
  with assms links_mid [of "nxt (mem s)" "prv (mem s)" "butlast (fileHandles s # xs)"
      "last (fileHandles s # xs)" "fileHandles s" "[]"]
  show "prv (mem s) (fileHandles s) = Some (last (fileHandles s # xs))"
    and "nxt (mem s) (last (fileHandles s # xs)) = Some (fileHandles s)"
    by (simp_all add: file_handle_list_def)
qed

lemma list_dom:
  assumes "file_handle_list s xs"
  shows "(a \<in> set (fileHandles s # xs)) = (mem s a \<noteq> None)"
  using assms by (metis domIff file_handle_list_def)

lemma register_effect:
  assumes "file_handle_list s xs" and "mem s a = None"
  shows "\<exists>s'. HAPPlatformFileHandleRegister (Some a) fd i cb ctx s = Inr (kHAPError_None, Some a, s')
     \<and> file_handle_list s' (xs @ [a])
     \<and> s' = s\<lparr>mem := mem s'\<rparr>
     \<and> (\<forall>b. b \<noteq> a \<longrightarrow> pay (mem s') b = pay (mem s) b)
     \<and> pay (mem s') a = Some (fd, i, cb, ctx, False)"
proof -
  define sent where "sent = fileHandles s"
  define p where "p = last (sent # xs)"
  define m where "m = mem s"
  from list_sentinel_prev [OF assms(1)] have pv: "prv m sent = Some p" and nx: "nxt m p = Some sent"
    by (simp_all add: sent_def p_def m_def)
  then obtain sf pf where sf: "m sent = Some sf" "prevFileHandle sf = Some p"
    and pf: "m p = Some pf" "nextFileHandle pf = Some sent"
    by (auto simp: prv_def nxt_def split: option.splits)
  have fresh: "a \<notin> set (sent # xs)"
    using assms list_dom [OF assms(1), of a] by (simp add: sent_def)
  have pin: "p \<in> set (sent # xs)" unfolding p_def by (metis last_in_set list.distinct(1))
  with fresh have ap: "a \<noteq> p" and as: "a \<noteq> sent" by auto
  define new where "new = \<lparr>fileDescriptor = fd, interests = i, callback = cb, contextPtr = ctx,
                      prevFileHandle = Some p, nextFileHandle = Some sent, isAwaitingEvents = False\<rparr>"
  define m1 where "m1 = m(a \<mapsto> new)"
  define m2 where "m2 = m1(p \<mapsto> pf\<lparr>nextFileHandle := Some a\<rparr>)"
  define sf2 where "sf2 = (if p = sent then pf\<lparr>nextFileHandle := Some a\<rparr> else sf)"
  define m3 where "m3 = m2(sent \<mapsto> sf2\<lparr>prevFileHandle := Some a\<rparr>)"
  have reg: "HAPPlatformFileHandleRegister (Some a) fd i cb ctx s = Inr (kHAPError_None, Some a, s\<lparr>mem := m3\<rparr>)"
    using sf pf ap as
    by (simp add: HAPPlatformFileHandleRegister_def load_def store_def bindf_def  Let_def
        sent_def [symmetric] m_def [symmetric] m3_def m2_def m1_def sf2_def new_def)
  have nx3: "nxt m3 = (nxt m)(a := Some sent, p := Some a)"
    using ap as sf pf by (auto simp: nxt_def m3_def m2_def m1_def sf2_def new_def fun_eq_iff)
  have pv3: "prv m3 = (prv m)(a := Some p, sent := Some a)"
    using ap as sf pf by (auto simp: prv_def m3_def m2_def m1_def sf2_def new_def fun_eq_iff)
  have "links (nxt m3) (prv m3) (sent # xs @ [a, sent])"
    unfolding nx3 pv3 p_def
    using assms(1) fresh by (intro links_snoc) (auto simp: file_handle_list_def sent_def m_def)
  moreover have "dom m3 = set (sent # xs @ [a])"
    using assms(1) pin by (auto simp: m3_def m2_def m1_def file_handle_list_def sent_def m_def)
  moreover have "distinct (sent # xs @ [a])"
    using assms(1) fresh by (auto simp: file_handle_list_def sent_def)
  ultimately have l: "file_handle_list (s\<lparr>mem := m3\<rparr>) (xs @ [a])"
    by (simp add: file_handle_list_def sent_def)
  have py: "\<forall>b. b \<noteq> a \<longrightarrow> pay m3 b = pay m b"
    using sf pf by (auto simp: pay_def payload_def m3_def m2_def m1_def sf2_def)
  have pa: "pay m3 a = Some (fd, i, cb, ctx, False)"
    using ap as by (simp add: pay_def payload_def m3_def m2_def m1_def new_def)
  from reg l py pa show ?thesis by (auto simp: m_def)
qed

lemma deregister_effect:
  assumes "file_handle_list s (as @ h # bs)"
  shows "\<exists>s'. HAPPlatformFileHandleDeregister (Some h) s = Inr s'
     \<and> file_handle_list s' (as @ bs)
     \<and> fileHandleCursor s' =
         (if fileHandleCursor s = Some h then Some (hd (bs @ [fileHandles s])) else fileHandleCursor s)
     \<and> s' = s\<lparr>mem := mem s', fileHandleCursor := fileHandleCursor s'\<rparr>
     \<and> (\<forall>b. b \<noteq> h \<longrightarrow> pay (mem s') b = pay (mem s) b)
     \<and> mem s' h = None"
proof -
  define sent where "sent = fileHandles s"
  define m where "m = mem s"
  define p where "p = last (sent # as)"
  define n where "n = hd (bs @ [sent])"
  define A where "A = butlast (sent # as)"
  define N where "N = tl (bs @ [sent])"
  have sa: "sent # as = A @ [p]" unfolding A_def p_def by simp
  have bn: "bs @ [sent] = n # N" unfolding n_def N_def by simp
  have ring: "sent # (as @ h # bs) @ [sent] = A @ p # h # n # N"
    using sa bn by (metis append_Cons append_assoc append_Nil)
  from assms have dist: "distinct (sent # as @ h # bs)"
    and lk: "links (nxt m) (prv m) (sent # (as @ h # bs) @ [sent])"
    and dm: "dom m = set (sent # as @ h # bs)"
    by (simp_all add: file_handle_list_def sent_def m_def)
  from lk have "nxt m p = Some h" "prv m h = Some p" "nxt m h = Some n" "prv m n = Some h"
    unfolding ring
    using links_mid [of "nxt m" "prv m" A p h "n # N"] links_mid [of "nxt m" "prv m" "A @ [p]" h n N]
    by simp_all
  then obtain fh pf nf where fh: "m h = Some fh" "prevFileHandle fh = Some p" "nextFileHandle fh = Some n"
    and pf: "m p = Some pf" and nf: "m n = Some nf"
    by (auto simp: prv_def nxt_def split: option.splits)
  have "p \<in> set (sent # as)" unfolding p_def by (metis last_in_set list.distinct(1))
  with dist have ph: "p \<noteq> h" by auto
  have "n \<in> set (bs @ [sent])" unfolding bn by simp
  with dist have nh: "n \<noteq> h" by auto
  define s1 where "s1 = (if Some h = fileHandleCursor s then s\<lparr>fileHandleCursor := Some n\<rparr> else s)"
  define m2 where "m2 = m(p \<mapsto> pf\<lparr>nextFileHandle := Some n\<rparr>)"
  define nf2 where "nf2 = (if n = p then pf\<lparr>nextFileHandle := Some n\<rparr> else nf)"
  define m3 where "m3 = (m2(n \<mapsto> nf2\<lparr>prevFileHandle := Some p\<rparr>))(h := None)"
  have m1: "mem s1 = m" by (simp add: s1_def m_def)
  have dereg: "HAPPlatformFileHandleDeregister (Some h) s = Inr (s1\<lparr>mem := m3\<rparr>)"
    using fh pf nf ph nh
    by (auto simp: HAPPlatformFileHandleDeregister_def load_def store_def bindf_def Let_def
        m_def [symmetric] s1_def m3_def m2_def nf2_def)
  have nx3: "nxt m3 = (nxt m)(p := Some n, h := None)"
    using ph nh fh pf nf by (auto simp: nxt_def m3_def m2_def nf2_def fun_eq_iff)
  have pv3: "prv m3 = (prv m)(n := Some p, h := None)"
    using ph nh fh pf nf by (auto simp: prv_def m3_def m2_def nf2_def fun_eq_iff)
  have "links (nxt m3) (prv m3) (sent # as @ bs @ [sent])"
    unfolding nx3 pv3 p_def n_def
    using dist lk by (intro links_remove) simp_all
  moreover have "dom m3 = set (sent # as @ bs)"
    using dm dist pf nf by (auto simp: m3_def m2_def)
  moreover have "distinct (sent # as @ bs)"
    using dist by auto
  ultimately have l: "file_handle_list (s1\<lparr>mem := m3\<rparr>) (as @ bs)"
    by (simp add: file_handle_list_def sent_def s1_def)
  have py: "\<forall>b. b \<noteq> h \<longrightarrow> pay m3 b = pay m b"
    using pf nf by (auto simp: pay_def payload_def m3_def m2_def nf2_def)
  have cur: "fileHandleCursor (s1\<lparr>mem := m3\<rparr>) =
      (if fileHandleCursor s = Some h then Some (hd (bs @ [fileHandles s])) else fileHandleCursor s)"
    by (auto simp: s1_def n_def sent_def)
  have fr: "s1\<lparr>mem := m3\<rparr> = s\<lparr>mem := mem (s1\<lparr>mem := m3\<rparr>), fileHandleCursor := fileHandleCursor (s1\<lparr>mem := m3\<rparr>)\<rparr>"
    by (simp add: s1_def)
  have "m3 h = None" by (simp add: m3_def)
  with dereg l py cur fr show ?thesis
    by (intro exI [of _ "s1\<lparr>mem := m3\<rparr>"]) (simp add: m_def)
qed

section \<open>Delivery of events to file handles\<close>

lemma touched_snoc [simp]: "touched (tr @ [e]) a = (touched tr a \<or> touches e a)"
  by (auto simp: touched_def list_ex_iff)

lemma invoked_snoc [simp]: "invoked (tr @ [e]) a = (invoked tr a \<or> invoked_handle e = Some a)"
  by (auto simp: invoked_def list_ex_iff)

lemma touched_rev [simp]: "touched (rev tr) a = touched tr a"
  by (simp add: touched_def list_ex_iff)

lemma invoked_rev [simp]: "invoked (rev tr) a = invoked tr a"
  by (simp add: invoked_def list_ex_iff)

lemma orderly_snoc:
  "orderly xs (tr @ [e]) =
     ((case invoked_handle e of
         None \<Rightarrow> True
       | Some h \<Rightarrow> h \<in> set xs \<and> \<not> touched tr h \<and> \<not> invoked tr h)
      \<and> orderly xs tr)"
  by (simp add: orderly_def split: option.splits)

lemma orderly_called [simp]: "orderly xs (tr @ [Called c]) = orderly xs tr"
  by (simp add: orderly_snoc)

lemma awaits_pay: "pay (mem s') h = pay (mem s) h \<Longrightarrow> awaits s' h = awaits s h"
  by (auto simp: awaits_def pay_def payload_def split: option.splits)

lemma awaiting_count_cong:
  "(\<And>h. h \<in> set l \<Longrightarrow> awaits s' h = awaits s h) \<Longrightarrow> awaiting_count s' l = awaiting_count s l"
  unfolding awaiting_count_def by (metis filter_cong)

lemma awaiting_count_append [simp]:
  "awaiting_count s (as @ bs) = awaiting_count s as + awaiting_count s bs"
  by (simp add: awaiting_count_def)

lemma awaiting_count_Cons [simp]:
  "awaiting_count s (h # bs) = (if awaits s h then 1 else 0) + awaiting_count s bs"
  by (simp add: awaiting_count_def)

lemma awaiting_count_Nil [simp]: "awaiting_count s [] = 0"
  by (simp add: awaiting_count_def)

lemma inv_register_none:
  assumes "pass_inv sel s0 xs0 s tr dn todo"
  shows "api (FileHandleRegister None fd i cb ctx) s = Inr s
    \<and> pass_inv sel s0 xs0 s (tr @ [Called (FileHandleRegister None fd i cb ctx)]) dn todo"
proof -
  have "api (FileHandleRegister None fd i cb ctx) s = Inr s"
    by (simp add: HAPPlatformFileHandleRegister_def bindf_def)
  moreover have "\<And>h. touches (Called (FileHandleRegister None fd i cb ctx)) h = False"
    by simp
  then have "pass_inv sel s0 xs0 s (tr @ [Called (FileHandleRegister None fd i cb ctx)]) dn todo"
    using assms unfolding pass_inv_def by (simp del: touches.simps) blast
  ultimately show ?thesis by simp
qed

lemma inv_register:
  assumes inv: "pass_inv sel s0 xs0 s tr dn todo" and fresh: "mem s a = None"
  shows "\<exists>s' dn' todo'. api (FileHandleRegister (Some a) fd i cb ctx) s = Inr s'
    \<and> pass_inv sel s0 xs0 s' (tr @ [Called (FileHandleRegister (Some a) fd i cb ctx)]) dn' todo'
    \<and> awaiting_count s' (dn' @ todo') \<le> awaiting_count s (dn @ todo)"
proof -
  let ?c = "FileHandleRegister (Some a) fd i cb ctx"
  from inv have L: "file_handle_list s (dn @ todo)"
    and C: "fileHandleCursor s = Some (hd (todo @ [fileHandles s]))"
    and S: "fileHandles s = fileHandles s0"
    and T: "\<forall>h \<in> set todo.
            if touched tr h then \<not> awaits s h
            else h \<in> set xs0 \<and> pay (mem s) h = pay (mem s0) h \<and> \<not> invoked tr h"
    and O: "orderly xs0 tr"
    and D: "\<forall>h \<in> set xs0. due sel s0 h \<longrightarrow>
            (h \<in> set todo \<and> \<not> touched tr h) \<or> invocation_of sel s0 h \<in> set tr
            \<or> Called (FileHandleDeregister (Some h)) \<in> set tr"
    and W: "awaiting_with_descriptor s0 xs0"
    unfolding pass_inv_def by blast+
  from register_effect [OF L fresh, of fd i cb ctx] obtain s' where
    reg: "HAPPlatformFileHandleRegister (Some a) fd i cb ctx s = Inr (kHAPError_None, Some a, s')"
    and L': "file_handle_list s' ((dn @ todo) @ [a])"
    and fr: "s' = s\<lparr>mem := mem s'\<rparr>"
    and py: "\<forall>b. b \<noteq> a \<longrightarrow> pay (mem s') b = pay (mem s) b"
    and pa: "pay (mem s') a = Some (fd, i, cb, ctx, False)"
    by blast
  have api: "api ?c s = Inr s'"
    by (simp add: reg bindf_def)
  have notin: "a \<notin> set (dn @ todo)"
    using list_dom [OF L, of a] fresh by simp
  have cur: "fileHandleCursor s' = fileHandleCursor s" and sen: "fileHandles s' = fileHandles s"
    by (subst fr, simp)+
  have na: "\<not> awaits s' a"
    using pa by (auto simp: awaits_def pay_def payload_def split: option.splits)
  have aw: "\<forall>h. h \<noteq> a \<longrightarrow> awaits s' h = awaits s h"
    using py awaits_pay by blast
  define dn' where "dn' = (if todo = [] then dn @ [a] else dn)"
  define todo' where "todo' = (if todo = [] then [] else todo @ [a])"
  have app: "dn' @ todo' = (dn @ todo) @ [a]"
    by (simp add: dn'_def todo'_def)
  have 1: "file_handle_list s' (dn' @ todo')"
    using L' app by simp
  have 2: "fileHandleCursor s' = Some (hd (todo' @ [fileHandles s']))"
    using C cur sen by (auto simp: todo'_def)
  have 4: "\<forall>h \<in> set todo'.
            if touched (tr @ [Called ?c]) h then \<not> awaits s' h
            else h \<in> set xs0 \<and> pay (mem s') h = pay (mem s0) h \<and> \<not> invoked (tr @ [Called ?c]) h"
  proof
    fix h assume h: "h \<in> set todo'"
    show "if touched (tr @ [Called ?c]) h then \<not> awaits s' h
          else h \<in> set xs0 \<and> pay (mem s') h = pay (mem s0) h \<and> \<not> invoked (tr @ [Called ?c]) h"
    proof (cases "h = a")
      case True
      with na show ?thesis by simp
    next
      case False
      with h have "h \<in> set todo" by (auto simp: todo'_def split: if_splits)
      with T False py aw show ?thesis by auto
    qed
  qed
  have 6: "\<forall>h \<in> set xs0. due sel s0 h \<longrightarrow>
            (h \<in> set todo' \<and> \<not> touched (tr @ [Called ?c]) h) \<or> invocation_of sel s0 h \<in> set (tr @ [Called ?c])
            \<or> Called (FileHandleDeregister (Some h)) \<in> set (tr @ [Called ?c])"
  proof (intro ballI impI)
    fix h assume "h \<in> set xs0" "due sel s0 h"
    with D consider "h \<in> set todo" "\<not> touched tr h" | "invocation_of sel s0 h \<in> set tr"
      | "Called (FileHandleDeregister (Some h)) \<in> set tr" by blast
    then show "(h \<in> set todo' \<and> \<not> touched (tr @ [Called ?c]) h) \<or> invocation_of sel s0 h \<in> set (tr @ [Called ?c])
            \<or> Called (FileHandleDeregister (Some h)) \<in> set (tr @ [Called ?c])"
    proof cases
      case 1
      with notin have "h \<noteq> a" by auto
      with 1 show ?thesis by (auto simp: todo'_def)
    qed auto
  qed
  have cnt: "awaiting_count s' (dn' @ todo') \<le> awaiting_count s (dn @ todo)"
  proof -
    have "awaiting_count s' (dn @ todo) = awaiting_count s (dn @ todo)"
      using notin aw by (intro awaiting_count_cong) auto
    with na show ?thesis unfolding app by simp
  qed
  have "pass_inv sel s0 xs0 s' (tr @ [Called ?c]) dn' todo'"
    unfolding pass_inv_def using 1 2 S sen 4 O 6 W by simp
  with api cnt show ?thesis by blast
qed

lemma inv_deregister:
  assumes inv: "pass_inv sel s0 xs0 s tr dn todo" and ok: "g \<noteq> fileHandles s" "mem s g \<noteq> None"
  shows "\<exists>s' dn' todo'. api (FileHandleDeregister (Some g)) s = Inr s'
    \<and> pass_inv sel s0 xs0 s' (tr @ [Called (FileHandleDeregister (Some g))]) dn' todo'
    \<and> awaiting_count s' (dn' @ todo') \<le> awaiting_count s (dn @ todo)"
proof -
  let ?c = "FileHandleDeregister (Some g)"
  from inv have L: "file_handle_list s (dn @ todo)"
    and C: "fileHandleCursor s = Some (hd (todo @ [fileHandles s]))"
    and S: "fileHandles s = fileHandles s0"
    and T: "\<forall>h \<in> set todo.
            if touched tr h then \<not> awaits s h
            else h \<in> set xs0 \<and> pay (mem s) h = pay (mem s0) h \<and> \<not> invoked tr h"
    and O: "orderly xs0 tr"
    and D: "\<forall>h \<in> set xs0. due sel s0 h \<longrightarrow>
            (h \<in> set todo \<and> \<not> touched tr h) \<or> invocation_of sel s0 h \<in> set tr
            \<or> Called (FileHandleDeregister (Some h)) \<in> set tr"
    and W: "awaiting_with_descriptor s0 xs0"
    unfolding pass_inv_def by blast+
  from L have dist: "distinct (fileHandles s # dn @ todo)"
    by (simp add: file_handle_list_def)
  from ok list_dom [OF L, of g] have gin: "g \<in> set (dn @ todo)" by simp
  have "\<exists>as bs dn' todo'. dn @ todo = as @ g # bs \<and> dn' @ todo' = as @ bs
      \<and> set todo' = set todo - {g}
      \<and> hd (todo' @ [fileHandles s]) =
          (if hd (todo @ [fileHandles s]) = g then hd (bs @ [fileHandles s]) else hd (todo @ [fileHandles s]))"
  proof (cases "g \<in> set todo")
    case True
    then obtain t1 t2 where t: "todo = t1 @ g # t2" by (meson split_list)
    with dist have d: "g \<notin> set t1" "g \<notin> set t2" by auto
    have "hd ((t1 @ t2) @ [fileHandles s]) =
          (if hd (todo @ [fileHandles s]) = g then hd (t2 @ [fileHandles s]) else hd (todo @ [fileHandles s]))"
      using t d by (cases t1) auto
    moreover have "set (t1 @ t2) = set todo - {g}" using t d by auto
    ultimately show ?thesis
      using t by (intro exI [of _ "dn @ t1"] exI [of _ t2] exI [of _ dn] exI [of _ "t1 @ t2"]) simp
  next
    case False
    with gin have "g \<in> set dn" by simp
    then obtain d1 d2 where d: "dn = d1 @ g # d2" by (meson split_list)
    have "hd (todo @ [fileHandles s]) \<noteq> g"
      using False ok(1) by (cases todo) auto
    moreover have "set todo = set todo - {g}" using False by auto
    ultimately show ?thesis
      using d by (intro exI [of _ d1] exI [of _ "d2 @ todo"] exI [of _ "d1 @ d2"] exI [of _ todo]) simp
  qed
  then obtain as bs dn' todo' where split: "dn @ todo = as @ g # bs" and app: "dn' @ todo' = as @ bs"
    and st: "set todo' = set todo - {g}"
    and hd': "hd (todo' @ [fileHandles s]) =
          (if hd (todo @ [fileHandles s]) = g then hd (bs @ [fileHandles s]) else hd (todo @ [fileHandles s]))"
    by blast
  from deregister_effect [OF L [unfolded split]] obtain s' where
    der: "HAPPlatformFileHandleDeregister (Some g) s = Inr s'"
    and L': "file_handle_list s' (as @ bs)"
    and cur: "fileHandleCursor s' =
         (if fileHandleCursor s = Some g then Some (hd (bs @ [fileHandles s])) else fileHandleCursor s)"
    and fr: "s' = s\<lparr>mem := mem s', fileHandleCursor := fileHandleCursor s'\<rparr>"
    and py: "\<forall>b. b \<noteq> g \<longrightarrow> pay (mem s') b = pay (mem s) b"
    and gone: "mem s' g = None"
    by blast
  have api: "api ?c s = Inr s'"
    by (simp add: der)
  have sen: "fileHandles s' = fileHandles s"
    by (subst fr, simp)
  have aw: "\<forall>h. h \<noteq> g \<longrightarrow> awaits s' h = awaits s h"
    using py awaits_pay by blast
  have 1: "file_handle_list s' (dn' @ todo')"
    using L' app by simp
  have 2: "fileHandleCursor s' = Some (hd (todo' @ [fileHandles s']))"
    using C cur sen hd' by auto
  have 4: "\<forall>h \<in> set todo'.
            if touched (tr @ [Called ?c]) h then \<not> awaits s' h
            else h \<in> set xs0 \<and> pay (mem s') h = pay (mem s0) h \<and> \<not> invoked (tr @ [Called ?c]) h"
  proof
    fix h assume "h \<in> set todo'"
    with st have h: "h \<in> set todo" "h \<noteq> g" by auto
    with T py aw show "if touched (tr @ [Called ?c]) h then \<not> awaits s' h
          else h \<in> set xs0 \<and> pay (mem s') h = pay (mem s0) h \<and> \<not> invoked (tr @ [Called ?c]) h"
      by auto
  qed
  have 6: "\<forall>h \<in> set xs0. due sel s0 h \<longrightarrow>
            (h \<in> set todo' \<and> \<not> touched (tr @ [Called ?c]) h) \<or> invocation_of sel s0 h \<in> set (tr @ [Called ?c])
            \<or> Called (FileHandleDeregister (Some h)) \<in> set (tr @ [Called ?c])"
  proof (intro ballI impI)
    fix h assume "h \<in> set xs0" "due sel s0 h"
    with D consider "h \<in> set todo" "\<not> touched tr h" | "invocation_of sel s0 h \<in> set tr"
      | "Called (FileHandleDeregister (Some h)) \<in> set tr" by blast
    then show "(h \<in> set todo' \<and> \<not> touched (tr @ [Called ?c]) h) \<or> invocation_of sel s0 h \<in> set (tr @ [Called ?c])
            \<or> Called (FileHandleDeregister (Some h)) \<in> set (tr @ [Called ?c])"
    proof cases
      case 1
      with st show ?thesis by (cases "h = g") auto
    qed auto
  qed
  have cnt: "awaiting_count s' (dn' @ todo') \<le> awaiting_count s (dn @ todo)"
  proof -
    have "g \<notin> set (as @ bs)" using dist unfolding split by auto
    then have "awaiting_count s' (as @ bs) = awaiting_count s (as @ bs)"
      using aw by (intro awaiting_count_cong) auto
    then show ?thesis unfolding app split by simp
  qed
  have "pass_inv sel s0 xs0 s' (tr @ [Called ?c]) dn' todo'"
    unfolding pass_inv_def using 1 2 S sen 4 O 6 W by simp
  with api cnt show ?thesis by blast
qed

lemma inv_call:
  assumes "pass_inv sel s0 xs0 s tr dn todo" and "file_handle_call_ok s c"
  shows "\<exists>s' dn' todo'. api c s = Inr s'
    \<and> pass_inv sel s0 xs0 s' (tr @ [Called c]) dn' todo'
    \<and> awaiting_count s' (dn' @ todo') \<le> awaiting_count s (dn @ todo)"
proof (cases c)
  case (FileHandleRegister p fd i cb ctx)
  show ?thesis
  proof (cases p)
    case None
    with FileHandleRegister inv_register_none [OF assms(1), of fd i cb ctx] show ?thesis
      by (metis order_refl)
  next
    case (Some a)
    with FileHandleRegister assms show ?thesis
      using inv_register [of sel s0 xs0 s tr dn todo a fd i cb ctx] by simp
  qed
next
  case (FileHandleDeregister h)
  with assms(2) obtain g where "h = Some g" "g \<noteq> fileHandles s" "mem s g \<noteq> None"
    by (cases h) auto
  with FileHandleDeregister assms(1) show ?thesis
    using inv_deregister [of sel s0 xs0 s tr dn todo g] by simp
qed (use assms(2) in simp_all)

lemma inv_calls:
  assumes "pass_inv sel s0 xs0 s tr dn todo" and "calls_ok s cs"
  shows "\<exists>s' tr' dn' todo'. calls cs (s, tr) = Inr (s', tr')
    \<and> pass_inv sel s0 xs0 s' tr' dn' todo'
    \<and> awaiting_count s' (dn' @ todo') \<le> awaiting_count s (dn @ todo)"
  using assms
proof (induction cs arbitrary: s tr dn todo)
  case Nil
  then show ?case by auto
next
  case (Cons c cs)
  from Cons.prems(2) have ok: "file_handle_call_ok s c" by simp
  from inv_call [OF Cons.prems(1) ok] obtain s1 dn1 todo1 where
    a: "api c s = Inr s1" and i: "pass_inv sel s0 xs0 s1 (tr @ [Called c]) dn1 todo1"
    and c1: "awaiting_count s1 (dn1 @ todo1) \<le> awaiting_count s (dn @ todo)"
    by blast
  from Cons.prems(2) a have "calls_ok s1 cs" by simp
  from Cons.IH [OF i this] obtain s' tr' dn' todo' where
    "calls cs (s1, tr @ [Called c]) = Inr (s', tr')" "pass_inv sel s0 xs0 s' tr' dn' todo'"
    "awaiting_count s' (dn' @ todo') \<le> awaiting_count s1 (dn1 @ todo1)"
    by blast
  with a c1 show ?case
    by (intro exI [of _ s'] exI [of _ tr'] exI [of _ dn'] exI [of _ todo']) (simp add: bindf_def)
qed

lemma list_store:
  assumes "file_handle_list s xs" and "mem s h = Some fh"
    and "nextFileHandle fh' = nextFileHandle fh" and "prevFileHandle fh' = prevFileHandle fh"
  shows "file_handle_list (s\<lparr>fileHandleCursor := c, mem := (mem s)(h \<mapsto> fh')\<rparr>) xs"
proof -
  have "nxt ((mem s)(h \<mapsto> fh')) = nxt (mem s)" "prv ((mem s)(h \<mapsto> fh')) = prv (mem s)"
    using assms(2-4) by (auto simp: nxt_def prv_def fun_eq_iff)
  moreover have "dom ((mem s)(h \<mapsto> fh')) = dom (mem s)"
    using assms(2) by auto
  ultimately show ?thesis
    using assms(1) by (simp add: file_handle_list_def)
qed

lemma list_cursor:
  assumes "file_handle_list s xs"
  shows "file_handle_list (s\<lparr>fileHandleCursor := c\<rparr>) xs"
  using assms by (simp add: file_handle_list_def)

lemma list_next:
  assumes "file_handle_list s (dn @ h # todo)"
  shows "\<exists>fh. mem s h = Some fh \<and> nextFileHandle fh = Some (hd (todo @ [fileHandles s]))"
proof -
  have "fileHandles s # (dn @ h # todo) @ [fileHandles s] =
      (fileHandles s # dn) @ h # hd (todo @ [fileHandles s]) # tl (todo @ [fileHandles s])"
    by simp
  with assms have "nxt (mem s) h = Some (hd (todo @ [fileHandles s]))"
    using links_mid [of "nxt (mem s)" "prv (mem s)" "fileHandles s # dn" h
        "hd (todo @ [fileHandles s])" "tl (todo @ [fileHandles s])"]
    by (simp add: file_handle_list_def)
  then show ?thesis
    by (auto simp: nxt_def split: option.splits)
qed

lemma payload_fields:
  assumes "payload fh = payload fh0"
  shows "fileDescriptor fh = fileDescriptor fh0" "interests fh = interests fh0"
    "callback fh = callback fh0" "contextPtr fh = contextPtr fh0"
    "isAwaitingEvents fh = isAwaitingEvents fh0" "fileHandleEvents sel fh = fileHandleEvents sel fh0"
  using assms by (simp_all add: payload_def fileHandleEvents_def)

lemma pay_same:
  assumes "pay m h = pay m0 h" and "m h = Some fh"
  shows "\<exists>fh0. m0 h = Some fh0 \<and> payload fh0 = payload fh"
  using assms by (cases "m0 h") (auto simp: pay_def)

lemma inv_visit:
  assumes inv: "pass_inv sel s0 xs0 s tr dn (h # todo)" and cbs: "register_deregister_only cbs"
  shows "\<exists>s' tr' dn' todo'. visit_file_handle cbs sel (s, tr) = Inr (s', tr')
     \<and> pass_inv sel s0 xs0 s' tr' dn' todo'
     \<and> (awaiting_count s' (dn' @ todo') < awaiting_count s (dn @ h # todo)
        \<or> awaiting_count s' (dn' @ todo') = awaiting_count s (dn @ h # todo)
           \<and> length todo' < length (h # todo))"
proof -
  from inv have L: "file_handle_list s (dn @ h # todo)"
    and C: "fileHandleCursor s = Some (hd ((h # todo) @ [fileHandles s]))"
    and S: "fileHandles s = fileHandles s0"
    and T: "\<forall>h' \<in> set (h # todo).
            if touched tr h' then \<not> awaits s h'
            else h' \<in> set xs0 \<and> pay (mem s) h' = pay (mem s0) h' \<and> \<not> invoked tr h'"
    and O: "orderly xs0 tr"
    and D: "\<forall>h' \<in> set xs0. due sel s0 h' \<longrightarrow>
            (h' \<in> set (h # todo) \<and> \<not> touched tr h') \<or> invocation_of sel s0 h' \<in> set tr
            \<or> Called (FileHandleDeregister (Some h')) \<in> set tr"
    and W: "awaiting_with_descriptor s0 xs0"
    unfolding pass_inv_def by blast+
  from list_next [OF L] obtain fh where fh: "mem s h = Some fh"
    and nx: "nextFileHandle fh = Some (hd (todo @ [fileHandles s]))"
    by blast
  from C have cur: "fileHandleCursor s = Some h" by simp
  from L have dist: "distinct (fileHandles s # dn @ h # todo)"
    by (simp add: file_handle_list_def)
  then have hd: "h \<notin> set dn" "h \<notin> set todo" by auto
  define c where "c = hd (todo @ [fileHandles s])"
  define s1 where "s1 = s\<lparr>fileHandleCursor := Some c\<rparr>"
  have awh: "awaits s h = isAwaitingEvents fh"
    by (simp add: awaits_def fh)
  have Th: "if touched tr h then \<not> awaits s h
            else h \<in> set xs0 \<and> pay (mem s) h = pay (mem s0) h \<and> \<not> invoked tr h"
    using T by simp
  have Ttodo: "\<forall>h' \<in> set todo.
            if touched tr h' then \<not> awaits s h'
            else h' \<in> set xs0 \<and> pay (mem s) h' = pay (mem s0) h' \<and> \<not> invoked tr h'"
    using T by simp
  show ?thesis
  proof (cases "isAwaitingEvents fh")
    case False
    have v: "visit_file_handle cbs sel (s, tr) = Inr (s1, tr)"
      using False by (simp add: visit_file_handle_def load_def bindf_def cur fh nx Let_def s1_def c_def)
    have 1: "file_handle_list s1 ((dn @ [h]) @ todo)"
      using list_cursor [OF L, of "Some c"] by (simp add: s1_def)
    have 2: "fileHandleCursor s1 = Some (hd (todo @ [fileHandles s1]))"
      by (simp add: s1_def c_def)
    have 3: "fileHandles s1 = fileHandles s0"
      using S by (simp add: s1_def)
    have aw1: "awaits s1 = awaits s" and m1: "mem s1 = mem s"
      by (simp_all add: awaits_def s1_def fun_eq_iff)
    have 4: "\<forall>h' \<in> set todo.
            if touched tr h' then \<not> awaits s1 h'
            else h' \<in> set xs0 \<and> pay (mem s1) h' = pay (mem s0) h' \<and> \<not> invoked tr h'"
      using Ttodo by (simp add: aw1 m1)
    have 6: "\<forall>h' \<in> set xs0. due sel s0 h' \<longrightarrow>
            (h' \<in> set todo \<and> \<not> touched tr h') \<or> invocation_of sel s0 h' \<in> set tr
            \<or> Called (FileHandleDeregister (Some h')) \<in> set tr"
    proof (intro ballI impI)
      fix h' assume h': "h' \<in> set xs0" "due sel s0 h'"
      have "\<not> (h' = h \<and> \<not> touched tr h)"
      proof
        assume a: "h' = h \<and> \<not> touched tr h"
        with Th have "pay (mem s) h = pay (mem s0) h" by simp
        with fh obtain fh0 where "mem s0 h = Some fh0" "payload fh0 = payload fh"
          using pay_same by blast
        with h'(2) a False show False
          by (auto simp: due_def dest: payload_fields(5))
      qed
      with D h' show "(h' \<in> set todo \<and> \<not> touched tr h') \<or> invocation_of sel s0 h' \<in> set tr
            \<or> Called (FileHandleDeregister (Some h')) \<in> set tr"
        by auto
    qed
    have "pass_inv sel s0 xs0 s1 tr (dn @ [h]) todo"
      unfolding pass_inv_def using 1 2 3 4 O 6 W by simp
    moreover have "awaiting_count s1 ((dn @ [h]) @ todo) = awaiting_count s (dn @ h # todo)"
      by (simp add: awaiting_count_def aw1)
    ultimately show ?thesis
      using v by (intro exI [of _ s1] exI [of _ tr] exI [of _ "dn @ [h]"] exI [of _ todo]) simp
  next
    case aw: True
    with Th awh have unt: "\<not> touched tr h" and hx: "h \<in> set xs0"
      and ph: "pay (mem s) h = pay (mem s0) h" and ni: "\<not> invoked tr h"
      by (auto split: if_splits)
    from ph fh obtain fh0 where fh0: "mem s0 h = Some fh0" and pl: "payload fh0 = payload fh"
      using pay_same by blast
    note pf = payload_fields [OF pl]
    from W hx fh0 aw pf(1,5) have fd: "fileDescriptor fh \<noteq> - 1"
      by (auto simp: awaiting_with_descriptor_def list_all_iff)
    define s2 where "s2 = s\<lparr>fileHandleCursor := Some c, mem := (mem s)(h \<mapsto> fh\<lparr>isAwaitingEvents := False\<rparr>)\<rparr>"
    have s2: "store h (fh\<lparr>isAwaitingEvents := False\<rparr>) s1 = s2"
      by (simp add: store_def s1_def s2_def)
    have 1: "file_handle_list s2 ((dn @ [h]) @ todo)"
      using list_store [OF L fh, of "fh\<lparr>isAwaitingEvents := False\<rparr>" "Some c"] by (simp add: s2_def)
    have 2: "fileHandleCursor s2 = Some (hd (todo @ [fileHandles s2]))"
      by (simp add: s2_def c_def)
    have 3: "fileHandles s2 = fileHandles s0"
      using S by (simp add: s2_def)
    have py2: "\<forall>b. b \<noteq> h \<longrightarrow> pay (mem s2) b = pay (mem s) b"
      by (simp add: pay_def s2_def)
    have aw2: "\<forall>b. b \<noteq> h \<longrightarrow> awaits s2 b = awaits s b"
      by (simp add: awaits_def s2_def)
    have na2: "\<not> awaits s2 h"
      by (simp add: awaits_def s2_def)
    have cnt2: "awaiting_count s2 ((dn @ [h]) @ todo) < awaiting_count s (dn @ h # todo)"
    proof -
      have "awaiting_count s2 dn = awaiting_count s dn" "awaiting_count s2 todo = awaiting_count s todo"
        using aw2 hd by (auto intro!: awaiting_count_cong)
      with na2 awh aw show ?thesis by simp
    qed
    have 4: "\<forall>h' \<in> set todo.
            if touched tr h' then \<not> awaits s2 h'
            else h' \<in> set xs0 \<and> pay (mem s2) h' = pay (mem s0) h' \<and> \<not> invoked tr h'"
    proof
      fix h' assume h': "h' \<in> set todo"
      with hd have "h' \<noteq> h" by auto
      with Ttodo h' py2 aw2 show "if touched tr h' then \<not> awaits s2 h'
            else h' \<in> set xs0 \<and> pay (mem s2) h' = pay (mem s0) h' \<and> \<not> invoked tr h'"
        by auto
    qed
    let ?ev = "fileHandleEvents sel fh"
    show ?thesis
    proof (cases "callback fh \<noteq> None \<and> (isReadyForReading ?ev \<or> isReadyForWriting ?ev
                                      \<or> hasErrorConditionPending ?ev)")
      case False
      have v: "visit_file_handle cbs sel (s, tr) = Inr (s2, tr)"
        using aw False fd s2
        by (auto simp: visit_file_handle_def load_def bindf_def cur fh nx Let_def
            s1_def [symmetric] c_def [symmetric] split: option.splits)
      have nd: "\<not> due sel s0 h"
        using False fh0 pf by (auto simp: due_def)
      have 6: "\<forall>h' \<in> set xs0. due sel s0 h' \<longrightarrow>
            (h' \<in> set todo \<and> \<not> touched tr h') \<or> invocation_of sel s0 h' \<in> set tr
            \<or> Called (FileHandleDeregister (Some h')) \<in> set tr"
        using D nd by auto
      have "pass_inv sel s0 xs0 s2 tr (dn @ [h]) todo"
        unfolding pass_inv_def using 1 2 3 4 O 6 W by simp
      with v cnt2 show ?thesis
        by (intro exI [of _ s2] exI [of _ tr] exI [of _ "dn @ [h]"] exI [of _ todo]) simp
    next
      case due: True
      then obtain cb where cb: "callback fh = Some cb" by auto
      define i where "i = FileHandleCallback cb h ?ev (contextPtr fh)"
      have v: "visit_file_handle cbs sel (s, tr) = calls (cbs tr i s2) (s2, tr @ [Invoked i])"
        using aw due fd s2 cb
        by (auto simp: visit_file_handle_def load_def bindf_def cur fh nx Let_def invoke_def i_def
            s1_def [symmetric] c_def [symmetric])
      have io: "invocation_of sel s0 h = Invoked i"
        using fh0 pf cb by (simp add: invocation_of_def i_def)
      have i4: "\<forall>h' \<in> set todo.
            if touched (tr @ [Invoked i]) h' then \<not> awaits s2 h'
            else h' \<in> set xs0 \<and> pay (mem s2) h' = pay (mem s0) h' \<and> \<not> invoked (tr @ [Invoked i]) h'"
      proof
        fix h' assume h': "h' \<in> set todo"
        with hd have "h' \<noteq> h" by auto
        with 4 h' show "if touched (tr @ [Invoked i]) h' then \<not> awaits s2 h'
            else h' \<in> set xs0 \<and> pay (mem s2) h' = pay (mem s0) h' \<and> \<not> invoked (tr @ [Invoked i]) h'"
          by (auto simp: i_def)
      qed
      have i5: "orderly xs0 (tr @ [Invoked i])"
        using O hx unt ni by (simp add: orderly_snoc i_def)
      have i6: "\<forall>h' \<in> set xs0. due sel s0 h' \<longrightarrow>
            (h' \<in> set todo \<and> \<not> touched (tr @ [Invoked i]) h')
            \<or> invocation_of sel s0 h' \<in> set (tr @ [Invoked i])
            \<or> Called (FileHandleDeregister (Some h')) \<in> set (tr @ [Invoked i])"
      proof (intro ballI impI)
        fix h' assume "h' \<in> set xs0" "due sel s0 h'"
        with D io show "(h' \<in> set todo \<and> \<not> touched (tr @ [Invoked i]) h')
            \<or> invocation_of sel s0 h' \<in> set (tr @ [Invoked i])
            \<or> Called (FileHandleDeregister (Some h')) \<in> set (tr @ [Invoked i])"
          by (cases "h' = h") (auto simp: i_def)
      qed
      have inv2: "pass_inv sel s0 xs0 s2 (tr @ [Invoked i]) (dn @ [h]) todo"
        unfolding pass_inv_def using 1 2 3 i4 i5 i6 W by simp
      from cbs 1 have "calls_ok s2 (cbs tr i s2)"
        unfolding register_deregister_only_def by blast
      from inv_calls [OF inv2 this] obtain s' tr' dn' todo' where
        "calls (cbs tr i s2) (s2, tr @ [Invoked i]) = Inr (s', tr')"
        "pass_inv sel s0 xs0 s' tr' dn' todo'"
        "awaiting_count s' (dn' @ todo') \<le> awaiting_count s2 ((dn @ [h]) @ todo)"
        by blast
      with v cnt2 show ?thesis
        by (intro exI [of _ s'] exI [of _ tr'] exI [of _ dn'] exI [of _ todo']) simp
    qed
  qed
qed

lemma inv_loop_measure:
  assumes cbs: "register_deregister_only cbs"
  shows "p = (awaiting_count s (dn @ todo), length todo) \<Longrightarrow> pass_inv sel s0 xs0 s tr dn todo \<Longrightarrow>
    \<exists>s' tr' dn'. visit_file_handles cbs sel (s, tr) = Some (Inr (s', tr'))
      \<and> pass_inv sel s0 xs0 s' tr' dn' []"
proof (induction p arbitrary: s tr dn todo
    rule: wf_induct [OF wf_lex_prod [OF wf_less_than wf_less_than], rule_format, case_names less])
  case (less p)
  from less.prems(2) have L: "file_handle_list s (dn @ todo)"
    and C: "fileHandleCursor s = Some (hd (todo @ [fileHandles s]))"
    unfolding pass_inv_def by blast+
  show ?case
  proof (cases todo)
    case Nil
    with C have "visit_file_handles cbs sel (s, tr) = Some (Inr (s, tr))"
      by (subst visit_file_handles.simps) simp
    with less.prems(2) Nil show ?thesis by blast
  next
    case (Cons h t)
    from L Cons have "h \<noteq> fileHandles s"
      by (auto simp: file_handle_list_def)
    with C Cons have nc: "fileHandleCursor s \<noteq> Some (fileHandles s)" by simp
    from inv_visit [OF less.prems(2) [unfolded Cons] cbs] obtain s1 tr1 dn1 todo1 where
      v: "visit_file_handle cbs sel (s, tr) = Inr (s1, tr1)"
      and i1: "pass_inv sel s0 xs0 s1 tr1 dn1 todo1"
      and m: "awaiting_count s1 (dn1 @ todo1) < awaiting_count s (dn @ h # t)
        \<or> awaiting_count s1 (dn1 @ todo1) = awaiting_count s (dn @ h # t)
           \<and> length todo1 < length (h # t)"
      by blast
    from m Cons less.prems(1) have "((awaiting_count s1 (dn1 @ todo1), length todo1), p)
        \<in> less_than <*lex*> less_than"
      by auto
    from less.IH [OF this refl i1] obtain s' tr' dn' where
      "visit_file_handles cbs sel (s1, tr1) = Some (Inr (s', tr'))" "pass_inv sel s0 xs0 s' tr' dn' []"
      by blast
    moreover have "visit_file_handles cbs sel (s, tr) = visit_file_handles cbs sel (s1, tr1)"
      using nc v by (subst visit_file_handles.simps) simp
    ultimately show ?thesis by auto
  qed
qed

lemma inv_loop:
  assumes "register_deregister_only cbs" and "pass_inv sel s0 xs0 s tr dn todo"
  shows "\<exists>s' tr' dn'. visit_file_handles cbs sel (s, tr) = Some (Inr (s', tr'))
      \<and> pass_inv sel s0 xs0 s' tr' dn' []"
  using inv_loop_measure [OF assms(1) refl assms(2)] .

lemma orderly_prefix: "orderly xs (tr @ tr2) \<Longrightarrow> orderly xs tr"
  by (induction tr2 rule: rev_induct) (simp_all add: orderly_snoc flip: append_assoc)

lemma orderly_invocation:
  assumes "orderly xs tr" and "tr = pre @ e # post" and "invoked_handle e = Some h"
  shows "h \<in> set xs \<and> \<not> touched pre h \<and> \<not> invoked pre h"
proof -
  from assms(1,2) have "orderly xs ((pre @ [e]) @ post)" by simp
  then have "orderly xs (pre @ [e])" by (rule orderly_prefix)
  with assms(3) show ?thesis by (simp add: orderly_snoc)
qed

text \<open>
  C2. The run loop \<open>s\<close> has the file handles \<open>xs\<close> registered, a handle that awaits events
  has a file descriptor, and the callbacks register and deregister file handles at will, in
  any order. Then one pass of \<open>ProcessSelectedFileHandles\<close> ends, without a fault and with
  the list of file handles intact. In its trace \<open>tr\<close>, whenever the callback of a handle is
  invoked, the handle is one of \<open>xs\<close> and nothing that came before in the pass has touched
  it: it was not deregistered and it was not registered, so no deregistered handle and no
  handle registered during the pass is ever invoked; nor was it invoked before. And no
  handle is skipped: for every handle of \<open>xs\<close> whose callback was due when the pass began
  (it awaited events, had a callback, and an event of interest was selected), the callback
  was invoked, with its events and context, unless the handle was deregistered during the
  pass.
\<close>

theorem delivery_pass:
  assumes "file_handle_list s xs" and "awaiting_with_descriptor s xs"
    and "register_deregister_only cbs"
  shows "\<exists>s' tr ys. ProcessSelectedFileHandles cbs sel (s, []) = Some (Inr (s', tr))
     \<and> file_handle_list s' ys
     \<and> (\<forall>pre e post h. tr = pre @ e # post \<and> invoked_handle e = Some h \<longrightarrow>
           h \<in> set xs \<and> \<not> touched pre h \<and> \<not> invoked pre h)
     \<and> (\<forall>h \<in> set xs. due sel s h \<longrightarrow>
           invocation_of sel s h \<in> set tr \<or> Called (FileHandleDeregister (Some h)) \<in> set tr)"
proof -
  from assms(1) have "nxt (mem s) (fileHandles s) = Some (hd (xs @ [fileHandles s]))"
    by (cases xs) (simp_all add: file_handle_list_def)
  then obtain sf where sf: "mem s (fileHandles s) = Some sf"
    "nextFileHandle sf = Some (hd (xs @ [fileHandles s]))"
    by (auto simp: nxt_def split: option.splits)
  define s1 where "s1 = s\<lparr>fileHandleCursor := Some (hd (xs @ [fileHandles s]))\<rparr>"
  have p: "ProcessSelectedFileHandles cbs sel (s, []) = visit_file_handles cbs sel (s1, [])"
    using sf by (simp add: ProcessSelectedFileHandles_def load_def s1_def)
  have "pass_inv sel s xs s1 [] [] xs"
    unfolding pass_inv_def
    using assms(1,2) list_cursor [OF assms(1), of "Some (hd (xs @ [fileHandles s]))"]
    by (simp add: s1_def touched_def invoked_def orderly_def)
  from inv_loop [OF assms(3) this] obtain s' tr dn' where
    r: "visit_file_handles cbs sel (s1, []) = Some (Inr (s', tr))"
    and i: "pass_inv sel s xs s' tr dn' []"
    by blast
  from i have L: "file_handle_list s' dn'" and O: "orderly xs tr"
    and D: "\<forall>h \<in> set xs. due sel s h \<longrightarrow>
           invocation_of sel s h \<in> set tr \<or> Called (FileHandleDeregister (Some h)) \<in> set tr"
    unfolding pass_inv_def by simp_all
  from O have X: "\<forall>pre e post h. tr = pre @ e # post \<and> invoked_handle e = Some h \<longrightarrow>
           h \<in> set xs \<and> \<not> touched pre h \<and> \<not> invoked pre h"
    using orderly_invocation by blast
  have P: "ProcessSelectedFileHandles cbs sel (s, []) = Some (Inr (s', tr))"
    using p r by simp
  from P L X D show ?thesis
    by (intro exI [of _ s'] exI [of _ tr] exI [of _ dn'] conjI)
qed

lemma three_list: "file_handle_list runLoop_three [1, 2, 3]"
  by (auto simp: file_handle_list_def runLoop_three_def nxt_def prv_def fileHandleSentinel_def
      dom_def split: if_splits)

lemma three_awaiting: "awaiting_with_descriptor runLoop_three [1, 2, 3]"
  by (simp add: awaiting_with_descriptor_def runLoop_three_def)

lemma example_callbacks: "register_deregister_only callbacks_example"
  unfolding register_deregister_only_def
proof (intro allI impI)
  fix tr i s xs
  show "calls_ok s (callbacks_example tr i s)"
    by (cases i) (auto simp: callbacks_example_def split: sum.splits)
qed

theorem delivery_pass_witness:
  "file_handle_list runLoop_three [1, 2, 3]
   \<and> awaiting_with_descriptor runLoop_three [1, 2, 3]
   \<and> register_deregister_only callbacks_example
   \<and> (\<exists>s' tr ys. ProcessSelectedFileHandles callbacks_example all_selected (runLoop_three, []) =
          Some (Inr (s', tr))
        \<and> file_handle_list s' ys
        \<and> (\<forall>pre e post h. tr = pre @ e # post \<and> invoked_handle e = Some h \<longrightarrow>
              h \<in> set [1, 2, 3] \<and> \<not> touched pre h \<and> \<not> invoked pre h)
        \<and> (\<forall>h \<in> set [1, 2, 3]. due all_selected runLoop_three h \<longrightarrow>
              invocation_of all_selected runLoop_three h \<in> set tr
              \<or> Called (FileHandleDeregister (Some h)) \<in> set tr))"
  using three_list three_awaiting example_callbacks
    delivery_pass [OF three_list three_awaiting example_callbacks, of all_selected]
  by (intro conjI)

text \<open>
  The pass on the example: callback 1 deregisters the handle 2, on which the cursor stands;
  the handle 2 is not visited, the handle 3 is, and the handle 4 that its callback
  registers is not invoked.
\<close>

lemma example_pass:
  "map_option (map_sum id snd) (ProcessSelectedFileHandles callbacks_example all_selected (runLoop_three, [])) =
     Some (Inr [Invoked (FileHandleCallback 1 1 read_interest None),
                Called (FileHandleDeregister (Some 2)),
                Invoked (FileHandleCallback 3 3 read_interest None),
                Called (FileHandleRegister (Some 4) 14 read_interest (Some 4) None)])"
  by (simp add: ProcessSelectedFileHandles_def load_def runLoop_three_def visit_file_handles.simps
      visit_file_handle_def bindf_def Let_def fileHandleSentinel_def store_def invoke_def
      callbacks_example_def fileHandleEvents_def all_selected_def read_interest_def
      HAPPlatformFileHandleDeregister_def HAPPlatformFileHandleRegister_def)

section \<open>Updating the interests of a file handle\<close>

text \<open>
  C10. For a file handle \<open>h\<close> whose structure \<open>fh\<close> is allocated, as that of every
  registered handle is, \<open>HAPPlatformFileHandleUpdateInterests\<close> returns and changes only the
  interests, the callback and the context of that handle: its file descriptor, its links to
  the previous and the next handle, and its awaiting-events flag are as before, every other
  structure in memory is as before, the circular list holds the same handles in the same
  order, and the cursor, the timers and all the rest of the run loop are unchanged.
\<close>

theorem update_interests_frame:
  assumes "mem s h = Some fh"
  shows "\<exists>s' fh'. HAPPlatformFileHandleUpdateInterests (Some h) i cb ctx s = Inr s'
     \<and> mem s' h = Some fh'
     \<and> interests fh' = i \<and> callback fh' = cb \<and> contextPtr fh' = ctx
     \<and> fileDescriptor fh' = fileDescriptor fh
     \<and> prevFileHandle fh' = prevFileHandle fh \<and> nextFileHandle fh' = nextFileHandle fh
     \<and> isAwaitingEvents fh' = isAwaitingEvents fh
     \<and> (\<forall>a. a \<noteq> h \<longrightarrow> mem s' a = mem s a)
     \<and> (\<forall>xs. file_handle_list s xs \<longrightarrow> file_handle_list s' xs)
     \<and> fileHandles s' = fileHandles s \<and> fileHandleCursor s' = fileHandleCursor s
     \<and> timers s' = timers s
     \<and> s' = s\<lparr>mem := mem s'\<rparr>"
proof -
  define fh' where "fh' = fh\<lparr>interests := i, callback := cb, contextPtr := ctx\<rparr>"
  define s' where "s' = s\<lparr>mem := (mem s)(h \<mapsto> fh')\<rparr>"
  have u: "HAPPlatformFileHandleUpdateInterests (Some h) i cb ctx s = Inr s'"
    using assms
    by (simp add: HAPPlatformFileHandleUpdateInterests_def load_def bindf_def store_def s'_def fh'_def)
  have l: "\<forall>xs. file_handle_list s xs \<longrightarrow> file_handle_list s' xs"
  proof (intro allI impI)
    fix xs assume "file_handle_list s xs"
    from list_store [OF this assms, of fh' "fileHandleCursor s"] show "file_handle_list s' xs"
      by (simp add: fh'_def s'_def)
  qed
  have m: "mem s' h = Some fh'" "\<forall>a. a \<noteq> h \<longrightarrow> mem s' a = mem s a"
    by (simp_all add: s'_def)
  have f: "interests fh' = i" "callback fh' = cb" "contextPtr fh' = ctx"
    "fileDescriptor fh' = fileDescriptor fh"
    "prevFileHandle fh' = prevFileHandle fh" "nextFileHandle fh' = nextFileHandle fh"
    "isAwaitingEvents fh' = isAwaitingEvents fh"
    by (simp_all add: fh'_def)
  have r: "fileHandles s' = fileHandles s" "fileHandleCursor s' = fileHandleCursor s"
    "timers s' = timers s" "s' = s\<lparr>mem := mem s'\<rparr>"
    by (simp_all add: s'_def)
  from u m f l r show ?thesis
    by (intro exI [of _ s'] exI [of _ fh'] conjI)
qed

theorem update_interests_frame_witness:
  "mem runLoop_three 2 =
     Some \<lparr>fileDescriptor = 12, interests = read_interest, callback = Some 2, contextPtr = None,
           prevFileHandle = Some 1, nextFileHandle = Some 3, isAwaitingEvents = True\<rparr>
   \<and> (\<exists>s' fh'. HAPPlatformFileHandleUpdateInterests (Some 2)
          \<lparr>isReadyForReading = False, isReadyForWriting = True, hasErrorConditionPending = False\<rparr>
          (Some 7) (Some 8) runLoop_three = Inr s'
     \<and> mem s' 2 = Some fh'
     \<and> interests fh' = \<lparr>isReadyForReading = False, isReadyForWriting = True, hasErrorConditionPending = False\<rparr>
     \<and> callback fh' = Some 7 \<and> contextPtr fh' = Some 8
     \<and> fileDescriptor fh' = 12
     \<and> prevFileHandle fh' = Some 1 \<and> nextFileHandle fh' = Some 3
     \<and> isAwaitingEvents fh' = True
     \<and> (\<forall>a. a \<noteq> 2 \<longrightarrow> mem s' a = mem runLoop_three a)
     \<and> (\<forall>xs. file_handle_list runLoop_three xs \<longrightarrow> file_handle_list s' xs)
     \<and> fileHandles s' = fileHandles runLoop_three \<and> fileHandleCursor s' = fileHandleCursor runLoop_three
     \<and> timers s' = timers runLoop_three
     \<and> s' = runLoop_three\<lparr>mem := mem s'\<rparr>)"
proof -
  have m: "mem runLoop_three 2 =
     Some \<lparr>fileDescriptor = 12, interests = read_interest, callback = Some 2, contextPtr = None,
           prevFileHandle = Some 1, nextFileHandle = Some 3, isAwaitingEvents = True\<rparr>"
    by (simp add: runLoop_three_def)
  from m update_interests_frame [OF m,
      of "\<lparr>isReadyForReading = False, isReadyForWriting = True, hasErrorConditionPending = False\<rparr>"
        "Some 7" "Some 8"]
  show ?thesis by simp
qed

section \<open>Timers\<close>

text \<open>
  C1 at the failing input: two timers are registered with deadline 0, first timer 1 and then
  timer 2. Both are stored with deadline 1, and the insertion loop of
  \<open>HAPPlatformTimerRegister\<close> compares the deadlines of the list with the deadline
  given by the caller, 0, and not with the stored one: timer 2 is put in front of timer 1.
  When the run loop processes the expired timers, timer 2 fires before timer 1, so timers
  with equal stored deadlines do not fire in their order of registration.
\<close>

theorem zero_deadline_timers_fire_in_reverse:
  "calls [TimerRegister (Some 1) 0 (Some 1) None, TimerRegister (Some 2) 0 (Some 2) None]
       (runLoop_init 4, []) =
     Inr (runLoop_two_timers,
          [Called (TimerRegister (Some 1) 0 (Some 1) None), Called (TimerRegister (Some 2) 0 (Some 2) None)])
   \<and> map (deadline \<circ> snd) (timers runLoop_two_timers) = [1, 1]
   \<and> map_option (map_sum id snd) (ProcessExpiredTimers callbacks_example 5 (runLoop_two_timers, [])) =
       Some (Inr [Invoked (TimerCallback 2 2 None), Invoked (TimerCallback 1 1 None)])"
  by (simp add: HAPPlatformTimerRegister_def bindf_def runLoop_init_def runLoop_two_timers_def
      ProcessExpiredTimers.simps invoke_def callbacks_example_def)

text \<open>Timers registered with the same deadline other than 0 do fire in their order of registration.\<close>

lemma same_deadline_timers_fire_in_order:
  "map_option (map_sum id snd)
     (case calls [TimerRegister (Some 1) 3 (Some 1) None, TimerRegister (Some 2) 3 (Some 2) None]
             (runLoop_init 4, []) of
        Inl f \<Rightarrow> Some (Inl f)
      | Inr (s, tr) \<Rightarrow> ProcessExpiredTimers callbacks_example 5 (s, [])) =
     Some (Inr [Invoked (TimerCallback 1 1 None), Invoked (TimerCallback 2 2 None)])"
  by (simp add: HAPPlatformTimerRegister_def bindf_def runLoop_init_def
      ProcessExpiredTimers.simps invoke_def callbacks_example_def)

text \<open>
  The stored deadlines are in ascending order and never 0, whatever is registered.
\<close>

lemma insert_timer_set: "set (insert_timer t dl ts) = insert t (set ts)"
  by (induction ts) auto

lemma insert_timer_sorted:
  assumes "timers_sorted ts" and "deadline (snd t) = (if dl \<noteq> 0 then dl else 1)"
  shows "timers_sorted (insert_timer t dl ts)"
  using assms
proof (induction ts)
  case Nil
  then show ?case by (simp add: timers_sorted_def)
next
  case (Cons u ts)
  have one: "\<And>w :: HAPTime. w \<noteq> 0 \<Longrightarrow> 1 \<le> w"
    by (simp add: word_le_nat_alt unat_gt_0 Suc_le_eq)
  show ?case
  proof (cases "deadline (snd u) > dl")
    case True
    with Cons.prems one [of "deadline (snd u)"] show ?thesis
      by (auto simp: timers_sorted_def)
  next
    case False
    from Cons.prems have "timers_sorted ts" by (simp add: timers_sorted_def)
    from Cons.IH [OF this Cons.prems(2)] have ih: "timers_sorted (insert_timer t dl ts)" .
    from False have le: "deadline (snd u) \<le> dl" by simp
    with Cons.prems(1) have "dl \<noteq> 0" by (auto simp: timers_sorted_def)
    with Cons.prems(2) le have "deadline (snd u) \<le> deadline (snd t)" by simp
    with ih False Cons.prems(1) show ?thesis
      by (auto simp: timers_sorted_def insert_timer_set)
  qed
qed

lemma register_sorted:
  assumes "timers_sorted (timers s)"
    and "HAPPlatformTimerRegister p dl cb ctx s = Inr (err, t, s')"
  shows "timers_sorted (timers s')"
  using assms
  by (auto simp: HAPPlatformTimerRegister_def insert_timer_sorted split: option.splits)

text \<open>
  With callbacks that make no calls, the expired timers fire in the order of the list,
  which is the ascending order of their stored deadlines.
\<close>

lemma expired_timers_fire_in_list_order:
  assumes "\<forall>tr i s. cbs tr i s = []" and "timers s = ts"
  shows "ProcessExpiredTimers cbs now (s, tr) =
     Some (Inr (s\<lparr>timers := dropWhile (\<lambda>t. deadline (snd t) \<le> now) ts\<rparr>,
                tr @ map (\<lambda>t. Invoked (TimerCallback (timerCallback (snd t)) (fst t) (timerContext (snd t))))
                       (takeWhile (\<lambda>t. deadline (snd t) \<le> now) ts)))"
  using assms(2)
proof (induction ts arbitrary: s tr)
  case Nil
  then show ?case
    by (subst ProcessExpiredTimers.simps) simp
next
  case (Cons t ts)
  show ?case
  proof (cases "deadline (snd t) > now")
    case True
    with Cons.prems show ?thesis
      by (subst ProcessExpiredTimers.simps) (simp add: leD)
  next
    case False
    let ?i = "TimerCallback (timerCallback (snd t)) (fst t) (timerContext (snd t))"
    have "ProcessExpiredTimers cbs now (s, tr) =
        ProcessExpiredTimers cbs now (s\<lparr>timers := ts\<rparr>, tr @ [Invoked ?i])"
      using False Cons.prems assms(1)
      by (subst ProcessExpiredTimers.simps) (simp add: invoke_def)
    also have "\<dots> = Some (Inr (s\<lparr>timers := ts\<rparr>\<lparr>timers := dropWhile (\<lambda>t. deadline (snd t) \<le> now) ts\<rparr>,
                (tr @ [Invoked ?i]) @ map (\<lambda>t. Invoked (TimerCallback (timerCallback (snd t)) (fst t) (timerContext (snd t))))
                       (takeWhile (\<lambda>t. deadline (snd t) \<le> now) ts)))"
      by (rule Cons.IH) simp
    finally show ?thesis
      using False by (simp add: not_less)
  qed
qed

end
